theory Spec2Isabelle
  imports Main "HOL-Library.Sublist" "HOL-Library.List_Lexorder" "HOL-Library.Char_ord"
begin

section \<open>Text primitives of the Python runtime\<close>

text \<open>
  Python text is modelled as \<^typ>\<open>string\<close>. The models of the library functions below
  (\<open>str.strip\<close>, \<open>str.lower\<close>, \<open>in\<close>, \<open>sorted\<close>, \<open>slugify\<close>, \<open>strptime\<close>) are written for
  ASCII text; the order on strings is the lexicographic order on character codes, which is what
  Python's comparison of \<open>str\<close> values is.
\<close>

definition is_digit :: "char \<Rightarrow> bool" where
  "is_digit c = (CHR ''0'' \<le> c \<and> c \<le> CHR ''9'')"

definition is_upper :: "char \<Rightarrow> bool" where
  "is_upper c = (CHR ''A'' \<le> c \<and> c \<le> CHR ''Z'')"

definition is_lower :: "char \<Rightarrow> bool" where
  "is_lower c = (CHR ''a'' \<le> c \<and> c \<le> CHR ''z'')"

definition is_alnum :: "char \<Rightarrow> bool" where
  "is_alnum c = (is_digit c \<or> is_upper c \<or> is_lower c)"

text \<open>\<open>str.isspace\<close> on ASCII: TAB, LF, VT, FF, CR, the separators 0x1C..0x1F, and the blank.\<close>

definition is_space :: "char \<Rightarrow> bool" where
  "is_space c = ((CHR 0x09 \<le> c \<and> c \<le> CHR 0x0D) \<or> (CHR 0x1C \<le> c \<and> c \<le> CHR 0x20))"

text \<open>\<open>str.lower\<close> on ASCII: an upper-case letter gets bit 5 set, anything else is kept.\<close>

definition lower_char :: "char \<Rightarrow> char" where
  "lower_char c =
     (if is_upper c
      then (case c of Char b0 b1 b2 b3 b4 b5 b6 b7 \<Rightarrow> Char b0 b1 b2 b3 b4 True b6 b7)
      else c)"

definition lower :: "string \<Rightarrow> string" where
  "lower s = map lower_char s"

text \<open>\<open>s.strip(chars)\<close>: leading and trailing characters satisfying \<open>P\<close> are removed.\<close>

definition strip_where :: "(char \<Rightarrow> bool) \<Rightarrow> string \<Rightarrow> string" where
  "strip_where P s = rev (dropWhile P (rev (dropWhile P s)))"

definition strip_slash :: "string \<Rightarrow> string" where
  "strip_slash s = strip_where (\<lambda>c. c = CHR ''/'') s"

text \<open>\<open>text.strip()\<close> without argument strips white space.\<close>

definition strip :: "string \<Rightarrow> string" where
  "strip s = strip_where is_space s"

text \<open>\<open>p in s\<close> for two strings: \<open>p\<close> occurs in \<open>s\<close> as a contiguous piece.\<close>

fun py_in :: "string \<Rightarrow> string \<Rightarrow> bool" where
  "py_in p [] = (p = [])"
| "py_in p (c # s) = (prefix p (c # s) \<or> py_in p s)"

section \<open>Catalog discovery: \<open>get_subpages\<close>\<close>

definition START_URL :: string where
  "START_URL = ''https://providencebiblefellowship.com/seminars''"

text \<open>
  \<open>get_subpages\<close> loads the entry page and reads the \<open>href\<close> of every anchor; the argument
  \<open>links\<close> is that list. The result is
  \<open>sorted(set([link for link in links if "providencebiblefellowship.com/" in link
     and link.strip("/") != START_URL.strip("/")]))\<close>.
\<close>

definition keep_link :: "string \<Rightarrow> bool" where
  "keep_link link =
     (py_in ''providencebiblefellowship.com/'' link \<and> strip_slash link \<noteq> strip_slash START_URL)"

definition get_subpages :: "string list \<Rightarrow> string list" where
  "get_subpages links = sort (remdups (filter keep_link links))"

text \<open>
  The reading of the specification, for comparison: the host of a link is the text between
  \<open>://\<close> and the next \<open>/\<close>, \<open>?\<close> or \<open>#\<close>, and a link is on the site when its host is the
  site's domain.
\<close>

fun after_scheme :: "string \<Rightarrow> string" where
  "after_scheme (a # b # c # s) =
     (if [a, b, c] = ''://'' then s else after_scheme (b # c # s))"
| "after_scheme s = []"

definition url_host :: "string \<Rightarrow> string" where
  "url_host link = takeWhile (\<lambda>c. c \<noteq> CHR ''/'' \<and> c \<noteq> CHR ''?'' \<and> c \<noteq> CHR ''#'') (after_scheme link)"

definition spec_same_site :: "string \<Rightarrow> bool" where
  "spec_same_site link = (url_host link = ''providencebiblefellowship.com'')"

section \<open>Slug sanitizer: \<open>sanitize_filename\<close>\<close>

text \<open>
  \<open>slugify\<close> is the function of the python-slugify package, called with \<open>lowercase=True\<close> and
  \<open>separator="-"\<close> and every other option at its default. On ASCII text that holds no
  character reference (no \<open>&\<close>) its transliteration and entity steps change nothing, and the
  remaining steps are, in order:
  \<^enum> every run of apostrophes becomes one \<open>-\<close> (\<open>QUOTE_PATTERN.sub('-', text)\<close>);
  \<^enum> \<open>text.lower()\<close>;
  \<^enum> apostrophes are deleted (\<open>QUOTE_PATTERN.sub('', text)\<close>);
  \<^enum> a comma between two digits is deleted (\<open>NUMBERS_PATTERN\<close>, \<open>(?<=\d),(?=\d)\<close>);
  \<^enum> every run of characters other than \<open>-\<close>, letters and digits becomes one \<open>-\<close>
    (\<open>DISALLOWED_CHARS_PATTERN\<close>, \<open>[^-a-zA-Z0-9]+\<close>);
  \<^enum> every run of two or more \<open>-\<close> becomes one \<open>-\<close> (\<open>DUPLICATE_DASH_PATTERN\<close>), and
    \<open>-\<close> is stripped from both ends.
\<close>

definition slug_scope :: "string \<Rightarrow> bool" where
  "slug_scope text = list_all (\<lambda>c. c < CHR 0x80 \<and> c \<noteq> CHR ''&'') text"

text \<open>\<open>re.sub\<close> of a pattern \<open>[class]+\<close>: \<open>prev\<close> tells whether the run has begun.\<close>

fun sub_runs :: "(char \<Rightarrow> bool) \<Rightarrow> string \<Rightarrow> bool \<Rightarrow> string \<Rightarrow> string" where
  "sub_runs P r prev [] = []"
| "sub_runs P r prev (c # s) =
     (if P c then (if prev then [] else r) @ sub_runs P r True s
      else c # sub_runs P r False s)"

fun cleanup_numbers :: "char option \<Rightarrow> string \<Rightarrow> string" where
  "cleanup_numbers prev [] = []"
| "cleanup_numbers prev (c # s) =
     (if c = CHR '','' \<and> (case prev of None \<Rightarrow> False | Some p \<Rightarrow> is_digit p)
         \<and> (case s of [] \<Rightarrow> False | n # _ \<Rightarrow> is_digit n)
      then cleanup_numbers (Some c) s
      else c # cleanup_numbers (Some c) s)"

definition is_quote :: "char \<Rightarrow> bool" where
  "is_quote c = (c = CHR 0x27)"

definition is_dash :: "char \<Rightarrow> bool" where
  "is_dash c = (c = CHR ''-'')"

definition disallowed :: "char \<Rightarrow> bool" where
  "disallowed c = (\<not> (is_dash c \<or> is_alnum c))"

definition slugify :: "string \<Rightarrow> string" where
  "slugify text =
     (let t1 = sub_runs is_quote ''-'' False text;
          t2 = lower t1;
          t3 = filter (\<lambda>c. \<not> is_quote c) t2;
          t4 = cleanup_numbers None t3;
          t5 = sub_runs disallowed ''-'' False t4;
          t6 = sub_runs is_dash ''-'' False t5
      in strip_where is_dash t6)"

text \<open>\<open>slugify(text or "untitled", lowercase=True, separator="-")\<close>: the empty string is falsy.\<close>

definition sanitize_filename :: "string \<Rightarrow> string" where
  "sanitize_filename text = slugify (if text = [] then ''untitled'' else text)"

section \<open>Date normalizer: \<open>get_date_slug\<close>\<close>

text \<open>
  \<open>datetime.strptime(s, "%B %d, %Y")\<close> turns the format into the regular expression
  \<open>(?P<B>september|february|...|may)\s+(?P<d>3[0-1]|[1-2]\d|0[1-9]|[1-9]| [1-9]),\s+(?P<Y>\d\d\d\d)\<close>
  (C locale, \<open>IGNORECASE\<close>), matches it at the start of \<open>s\<close>, raises \<open>ValueError\<close> when
  it does not match or when text is left over, and then builds the date, which raises
  \<open>ValueError\<close> for a year 0 or a day the month does not have. Every failure is \<open>None\<close> here.
  The month names are tried longest first, as \<open>__seqToRE\<close> sorts them; no name is the
  beginning of another, so the first that matches is the only one.
\<close>

definition month_alternatives :: "(string \<times> nat) list" where
  "month_alternatives =
     [(''september'', 9), (''february'', 2), (''november'', 11), (''december'', 12),
      (''january'', 1), (''october'', 10), (''august'', 8), (''march'', 3), (''april'', 4),
      (''june'', 6), (''july'', 7), (''may'', 5)]"

fun match_month :: "(string \<times> nat) list \<Rightarrow> string \<Rightarrow> (nat \<times> string) option" where
  "match_month [] s = None"
| "match_month ((name, m) # alts) s =
     (if lower (take (length name) s) = name then Some (m, drop (length name) s)
      else match_month alts s)"

definition parse_B :: "string \<Rightarrow> (nat \<times> string) option" where
  "parse_B s = match_month month_alternatives s"

text \<open>\<open>\s+\<close>: at least one white-space character, then all that follow.\<close>

definition skip_spaces :: "string \<Rightarrow> string option" where
  "skip_spaces s =
     (case s of [] \<Rightarrow> None
      | c # _ \<Rightarrow> if is_space c then Some (dropWhile is_space s) else None)"

definition digit_val :: "char \<Rightarrow> nat" where
  "digit_val c = of_char c - 48"

definition is_digit19 :: "char \<Rightarrow> bool" where
  "is_digit19 c = (CHR ''1'' \<le> c \<and> c \<le> CHR ''9'')"

text \<open>The alternatives \<open>3[0-1]\<close>, \<open>[1-2]\d\<close> and \<open>0[1-9]\<close> of the day.\<close>

definition two_digit_day :: "char \<Rightarrow> char \<Rightarrow> bool" where
  "two_digit_day a b =
     ((a = CHR ''3'' \<and> (b = CHR ''0'' \<or> b = CHR ''1''))
      \<or> ((a = CHR ''1'' \<or> a = CHR ''2'') \<and> is_digit b)
      \<or> (a = CHR ''0'' \<and> is_digit19 b))"

text \<open>
  The day. The text reaches this point with the white space before it consumed, so the last
  alternative \<open>' [1-9]'\<close> can only match where \<open>[1-9]\<close> does one character later. A
  two-digit alternative that matched is never given up for the one-digit one: the comma that
  must follow would meet the second digit.
\<close>

definition parse_d :: "string \<Rightarrow> (nat \<times> string) option" where
  "parse_d s =
     (case s of
        [] \<Rightarrow> None
      | [a] \<Rightarrow> if is_digit19 a then Some (digit_val a, []) else None
      | a # b # r \<Rightarrow>
          if two_digit_day a b then Some (10 * digit_val a + digit_val b, r)
          else if is_digit19 a then Some (digit_val a, b # r)
          else None)"

text \<open>The year \<open>\d\d\d\d\<close>, and nothing after it (\<open>unconverted data remains\<close> otherwise).\<close>

definition parse_Y :: "string \<Rightarrow> nat option" where
  "parse_Y s =
     (case s of
        [a, b, c, d] \<Rightarrow>
          if is_digit a \<and> is_digit b \<and> is_digit c \<and> is_digit d
          then Some (1000 * digit_val a + 100 * digit_val b + 10 * digit_val c + digit_val d)
          else None
      | _ \<Rightarrow> None)"

definition is_leap :: "nat \<Rightarrow> bool" where
  "is_leap y = (y mod 4 = 0 \<and> (y mod 100 \<noteq> 0 \<or> y mod 400 = 0))"

definition days_in_month :: "nat \<Rightarrow> nat \<Rightarrow> nat" where
  "days_in_month y m =
     (if m = 2 then (if is_leap y then 29 else 28)
      else if m = 4 \<or> m = 6 \<or> m = 9 \<or> m = 11 then 30 else 31)"

text \<open>The result is (year, month, day).\<close>

definition strptime_B_d_Y :: "string \<Rightarrow> (nat \<times> nat \<times> nat) option" where
  "strptime_B_d_Y s =
     (case parse_B s of None \<Rightarrow> None | Some (month, r1) \<Rightarrow>
      case skip_spaces r1 of None \<Rightarrow> None | Some r2 \<Rightarrow>
      case parse_d r2 of None \<Rightarrow> None | Some (day, r3) \<Rightarrow>
      case r3 of [] \<Rightarrow> None | c # r4 \<Rightarrow>
      if c \<noteq> CHR '','' then None else
      case skip_spaces r4 of None \<Rightarrow> None | Some r5 \<Rightarrow>
      case parse_Y r5 of None \<Rightarrow> None | Some year \<Rightarrow>
      if year < 1 \<or> days_in_month year month < day then None
      else Some (year, month, day))"

definition digit_char :: "nat \<Rightarrow> char" where
  "digit_char n = ''0123456789'' ! (n mod 10)"

definition pad2 :: "nat \<Rightarrow> string" where
  "pad2 n = [digit_char (n div 10), digit_char n]"

definition pad4 :: "nat \<Rightarrow> string" where
  "pad4 n = [digit_char (n div 1000), digit_char (n div 100), digit_char (n div 10), digit_char n]"

text \<open>
  \<open>strftime("%Y-%m-%d")\<close>, with the year written with four digits as the library documents it
  (the C library of some platforms writes a year below 1000 without the leading zeros).
\<close>

definition strftime_Y_m_d :: "nat \<times> nat \<times> nat \<Rightarrow> string" where
  "strftime_Y_m_d dt = (case dt of (y, m, d) \<Rightarrow> pad4 y @ ''-'' @ pad2 m @ ''-'' @ pad2 d)"

text \<open>
  \<open>try: return strptime(text.strip(), "%B %d, %Y").strftime("%Y-%m-%d")\<close>
  \<open>except Exception: return "unknown-date"\<close>
\<close>

definition get_date_slug :: "string \<Rightarrow> string" where
  "get_date_slug text =
     (case strptime_B_d_Y (strip text) of
        None \<Rightarrow> ''unknown-date''
      | Some dt \<Rightarrow> strftime_Y_m_d dt)"






section \<open>The world outside the crawler\<close>

text \<open>
  The browser, the HTTP client and the URL parser are outside the program; the record \<open>env\<close>
  holds what they answer, and the crawler is a function of it.
  \<^item> Clicking a card and reading the player either raises (a timeout of \<open>wait_for_function\<close>, a
    missing element, ...) or yields the source URL and the four text elements, each absent
    (\<open>None\<close>) or present with its inner text.
  \<^item> Loading a listing page either raises (\<open>goto\<close> or the wait for a \<open>.media-card\<close> failing) or
    yields the cards in document order.
  \<^item> An HTTP GET either raises or yields a status and a body.
  \<^item> \<open>url_path\<close> is \<open>urllib.parse.urlparse(u).path\<close>.
  \<^item> \<open>entry\<close> is what loading the entry page gives: an exception, or the \<open>href\<close> of every anchor.
\<close>

record details =
  mp3_url :: string
  title_el :: "string option"
  date_el :: "string option"
  speaker_el :: "string option"
  series_el :: "string option"

datatype click_result = Raises string | Player details

record card =
  data_id :: "string option"
  click :: click_result

datatype page_load = LoadFails string | Loaded "card list"

datatype http_response = ConnectionFails string | Response nat string

record env =
  site :: "string \<Rightarrow> page_load"
  http :: "string \<Rightarrow> http_response"
  url_path :: "string \<Rightarrow> string"
  entry :: "string + string list"

text \<open>
  What the program does to the world: the files it writes (path to content) and, in order, the
  calls it makes on the browser and the HTTP client and the status lines it prints.
\<close>

datatype event =
    Goto string
  | Visiting string nat
  | RepeatDetected nat
  | Click string nat
  | HttpGet string
  | Downloaded string
  | FailedDownload string
  | AlreadyDownloaded string
  | ItemError nat string
  | NextPage
  | FoundSubpages nat
  | CatalogFailed string string

record world =
  files :: "string \<rightharpoonup> string"
  trace :: "event list"

definition emit :: "event \<Rightarrow> world \<Rightarrow> world" where
  "emit e w = w\<lparr>trace := trace w @ [e]\<rparr>"

text \<open>\<open>open(path, "a")\<close> and \<open>write\<close>: the file is created when it is not there.\<close>

definition append_file :: "string \<Rightarrow> string \<Rightarrow> world \<Rightarrow> world" where
  "append_file path txt w =
     w\<lparr>files := (files w)(path \<mapsto> (case files w path of None \<Rightarrow> txt | Some old \<Rightarrow> old @ txt))\<rparr>"

text \<open>A call either returns or raises an exception with a message.\<close>

datatype outcome = Done | Raised string

section \<open>Paths and numbers\<close>

text \<open>\<open>str(n)\<close> of a natural number.\<close>

fun show_nat :: "nat \<Rightarrow> string" where
  "show_nat n = (if n < 10 then [digit_char n] else show_nat (n div 10) @ [digit_char n])"

declare show_nat.simps [simp del]

text \<open>\<open>os.path.join(a, b)\<close> on POSIX.\<close>

definition path_join :: "string \<Rightarrow> string \<Rightarrow> string" where
  "path_join a b =
     (if b \<noteq> [] \<and> hd b = CHR ''/'' then b
      else if a = [] \<or> last a = CHR ''/'' then a @ b
      else a @ ''/'' @ b)"

text \<open>\<open>p.rfind(c)\<close>: the last index of \<open>c\<close>, or \<open>-1\<close>.\<close>

definition rfind :: "char \<Rightarrow> string \<Rightarrow> int" where
  "rfind c p =
     (if c \<in> set p then int (length p) - 1 - int (length (takeWhile (\<lambda>x. x \<noteq> c) (rev p)))
      else - 1)"

text \<open>
  \<open>os.path.splitext(p)[-1]\<close>: the text from the last dot on, when that dot lies after the last
  slash and some character between the two is not a dot; the empty string otherwise.
\<close>

definition splitext_ext :: "string \<Rightarrow> string" where
  "splitext_ext p =
     (let sepIndex = rfind CHR ''/'' p; dotIndex = rfind CHR ''.'' p
      in if dotIndex > sepIndex
            \<and> list_ex (\<lambda>c. c \<noteq> CHR ''.'')
                 (take (nat (dotIndex - (sepIndex + 1))) (drop (nat (sepIndex + 1)) p))
         then drop (nat dotIndex) p
         else [])"

text \<open>\<open>path.strip("/").split("/")[-1]\<close>: what follows the last slash of the stripped path.\<close>

definition last_segment :: "string \<Rightarrow> string" where
  "last_segment p = rev (takeWhile (\<lambda>c. c \<noteq> CHR ''/'') (rev (strip_slash p)))"

definition nl :: string where
  "nl = [CHR 0x0A]"

definition rule_line :: string where
  "rule_line = replicate 40 CHR ''-'' @ nl"

section \<open>Asset fetcher: \<open>download_mp3\<close>\<close>

definition download_mp3 :: "env \<Rightarrow> string \<Rightarrow> string \<Rightarrow> world \<Rightarrow> outcome \<times> world" where
  "download_mp3 env url path w =
     (let w1 = emit (HttpGet url) w in
      case http env url of
        ConnectionFails e \<Rightarrow> (Raised e, w1)
      | Response status body \<Rightarrow>
          if status = 200
          then (Done, emit (Downloaded path) (w1\<lparr>files := (files w1)(path \<mapsto> body)\<rparr>))
          else (Done, emit (FailedDownload url) w1))"

section \<open>Item extractor: the body of the loop over the cards\<close>

definition render_metadata ::
  "string \<Rightarrow> string \<Rightarrow> string \<Rightarrow> string \<Rightarrow> string \<Rightarrow> string \<Rightarrow> string" where
  "render_metadata filename title date speaker series url =
     ''Filename: '' @ filename @ nl @ ''Title: '' @ title @ nl @ ''Date: '' @ date @ nl
     @ ''Speaker: '' @ speaker @ nl @ ''Series: '' @ series @ nl @ ''MP3 URL: '' @ url @ nl
     @ rule_line"

definition render_failure :: "nat \<Rightarrow> string \<Rightarrow> string \<Rightarrow> string" where
  "render_failure idx url e =
     ''Item '' @ show_nat (idx + 1) @ '' on '' @ url @ nl @ ''Error: '' @ e @ nl @ rule_line"

text \<open>
  The \<open>try\<close> block for the card at index \<open>idx\<close> (from 0). Every step before the download only
  reads the page, so a failure of any of them leaves the world as it was.
\<close>

definition try_item ::
  "env \<Rightarrow> string \<Rightarrow> string \<Rightarrow> nat \<Rightarrow> card \<Rightarrow> world \<Rightarrow> outcome \<times> world" where
  "try_item env slug folder idx button w =
     (case click button of
        Raises e \<Rightarrow> (Raised e, w)
      | Player d \<Rightarrow>
          let title = (case title_el d of Some t \<Rightarrow> t | None \<Rightarrow> ''untitled-'' @ show_nat (idx + 1));
              date = (case date_el d of Some t \<Rightarrow> t | None \<Rightarrow> []);
              speaker = (case speaker_el d of Some t \<Rightarrow> t | None \<Rightarrow> ''unknown-speaker'');
              series = (case series_el d of Some t \<Rightarrow> t | None \<Rightarrow> ''unknown-series'');
              clean_title = sanitize_filename title;
              clean_speaker = sanitize_filename speaker;
              clean_series = sanitize_filename series;
              date_slug = get_date_slug date;
              ext = splitext_ext (mp3_url d);
              filename = slug @ ''_'' @ date_slug @ ''_'' @ clean_series @ ''_'' @ clean_speaker
                         @ ''_'' @ clean_title @ ext;
              filepath = path_join folder filename;
              r = (if files w filepath \<noteq> None then (Done, emit (AlreadyDownloaded filename) w)
                   else download_mp3 env (mp3_url d) filepath w)
          in case r of
               (Raised e, w1) \<Rightarrow> (Raised e, w1)
             | (Done, w1) \<Rightarrow>
                 (Done, append_file (path_join folder ''metadata.txt'')
                          (render_metadata filename title date speaker series (mp3_url d)) w1))"

text \<open>The \<open>try\<close> with its \<open>except Exception\<close> handler.\<close>

definition process_item ::
  "env \<Rightarrow> string \<Rightarrow> string \<Rightarrow> string \<Rightarrow> nat \<Rightarrow> card \<Rightarrow> world \<Rightarrow> world" where
  "process_item env slug folder url idx button w =
     (case try_item env slug folder idx button (emit (Click url idx) w) of
        (Done, w1) \<Rightarrow> w1
      | (Raised e, w1) \<Rightarrow>
          append_file (path_join folder ''failed.txt'') (render_failure idx url e)
            (emit (ItemError (idx + 1) e) w1))"

text \<open>\<open>for idx, button in enumerate(media_buttons)\<close>.\<close>

definition process_items ::
  "env \<Rightarrow> string \<Rightarrow> string \<Rightarrow> string \<Rightarrow> card list \<Rightarrow> world \<Rightarrow> world" where
  "process_items env slug folder url media_buttons w =
     foldl (\<lambda>w (idx, button). process_item env slug folder url idx button w) w
       (enumerate 0 media_buttons)"

section \<open>Pagination crawler: \<open>scrape_media_items\<close>\<close>

definition page_url :: "string \<Rightarrow> nat \<Rightarrow> string" where
  "page_url base_url page_num =
     (if page_num > 1 then base_url @ ''?page='' @ show_nat page_num else base_url)"

text \<open>\<open>await btn.get_attribute("data-id") or f"idx-{idx}"\<close>: an absent or empty attribute is falsy.\<close>

definition resolve_id :: "nat \<Rightarrow> card \<Rightarrow> string" where
  "resolve_id idx btn =
     (case data_id btn of
        None \<Rightarrow> ''idx-'' @ show_nat idx
      | Some v \<Rightarrow> if v = [] then ''idx-'' @ show_nat idx else v)"

definition resolve_ids :: "card list \<Rightarrow> string list" where
  "resolve_ids media_buttons = map (\<lambda>(idx, btn). resolve_id idx btn) (enumerate 0 media_buttons)"

text \<open>
  The \<open>while True\<close> loop. It ends by \<open>break\<close> on a repeated identifier or by the exception of a
  page that does not load; a site that never repeats keeps it running, which is \<open>None\<close>.
\<close>

partial_function (option) crawl_pages ::
  "env \<Rightarrow> string \<Rightarrow> string \<Rightarrow> string \<Rightarrow> nat \<Rightarrow> string set \<Rightarrow> world \<Rightarrow> (outcome \<times> world) option" where
  "crawl_pages env base_url slug folder page_num seen_ids w =
     (case site env (page_url base_url page_num) of
        LoadFails e \<Rightarrow> Some (Raised e, emit (Goto (page_url base_url page_num)) w)
      | Loaded media_buttons \<Rightarrow>
          if list_ex (\<lambda>mid. mid \<in> seen_ids) (resolve_ids media_buttons)
          then Some (Done, emit (RepeatDetected page_num)
                 (emit (Visiting (page_url base_url page_num) (length media_buttons))
                   (emit (Goto (page_url base_url page_num)) w)))
          else crawl_pages env base_url slug folder (page_num + 1)
                 (seen_ids \<union> set (resolve_ids media_buttons))
                 (emit NextPage
                   (process_items env slug folder (page_url base_url page_num) media_buttons
                     (emit (Visiting (page_url base_url page_num) (length media_buttons))
                       (emit (Goto (page_url base_url page_num)) w)))))"

definition scrape_media_items :: "env \<Rightarrow> string \<Rightarrow> world \<Rightarrow> (outcome \<times> world) option" where
  "scrape_media_items env base_url w =
     (let slug = last_segment (url_path env base_url);
          folder = path_join ''downloads'' slug
      in crawl_pages env base_url slug folder 1 {} w)"

section \<open>The main loop\<close>

text \<open>\<open>for url in subpages: try: await scrape_media_items(page, url) except Exception as e: print(...)\<close>\<close>

fun run_catalogs :: "env \<Rightarrow> string list \<Rightarrow> world \<Rightarrow> world option" where
  "run_catalogs env [] w = Some w"
| "run_catalogs env (url # urls) w =
     (case scrape_media_items env url w of
        None \<Rightarrow> None
      | Some (Done, w1) \<Rightarrow> run_catalogs env urls w1
      | Some (Raised e, w1) \<Rightarrow> run_catalogs env urls (emit (CatalogFailed url e) w1))"

text \<open>\<open>main\<close>: an exception of \<open>get_subpages\<close> is not caught.\<close>

definition main :: "env \<Rightarrow> world \<Rightarrow> (outcome \<times> world) option" where
  "main env w =
     (case entry env of
        Inl e \<Rightarrow> Some (Raised e, emit (Goto START_URL) w)
      | Inr links \<Rightarrow>
          (case run_catalogs env (get_subpages links)
                  (emit (FoundSubpages (length (get_subpages links))) (emit (Goto START_URL) w)) of
             None \<Rightarrow> None
           | Some w1 \<Rightarrow> Some (Done, w1)))"

section \<open>Observations used in the statements\<close>

text \<open>The four texts of an item with the fallbacks the extractor uses when an element is absent.\<close>

definition item_title :: "nat \<Rightarrow> details \<Rightarrow> string" where
  "item_title idx d = (case title_el d of Some t \<Rightarrow> t | None \<Rightarrow> ''untitled-'' @ show_nat (idx + 1))"

definition item_date :: "details \<Rightarrow> string" where
  "item_date d = (case date_el d of Some t \<Rightarrow> t | None \<Rightarrow> [])"

definition item_speaker :: "details \<Rightarrow> string" where
  "item_speaker d = (case speaker_el d of Some t \<Rightarrow> t | None \<Rightarrow> ''unknown-speaker'')"

definition item_series :: "details \<Rightarrow> string" where
  "item_series d = (case series_el d of Some t \<Rightarrow> t | None \<Rightarrow> ''unknown-series'')"

text \<open>
  The file name as the specification words it:
  \<open><catalogSlug>_<normalizedDate>_<sanitizedSeries>_<sanitizedSpeaker>_<sanitizedTitle><extension>\<close>.
\<close>

definition spec_filename ::
  "string \<Rightarrow> string \<Rightarrow> string \<Rightarrow> string \<Rightarrow> string \<Rightarrow> string \<Rightarrow> string" where
  "spec_filename catalog_slug normalized_date sanitized_series sanitized_speaker sanitized_title extension =
     catalog_slug @ ''_'' @ normalized_date @ ''_'' @ sanitized_series @ ''_'' @ sanitized_speaker
     @ ''_'' @ sanitized_title @ extension"

definition item_filename :: "string \<Rightarrow> nat \<Rightarrow> details \<Rightarrow> string" where
  "item_filename slug idx d =
     spec_filename slug (get_date_slug (item_date d)) (sanitize_filename (item_series d))
       (sanitize_filename (item_speaker d)) (sanitize_filename (item_title idx d))
       (splitext_ext (mp3_url d))"

definition item_metadata :: "string \<Rightarrow> nat \<Rightarrow> details \<Rightarrow> string" where
  "item_metadata slug idx d =
     render_metadata (item_filename slug idx d) (item_title idx d) (item_date d) (item_speaker d)
       (item_series d) (mp3_url d)"

text \<open>The content of a file, empty when the file is not there.\<close>

definition file_text :: "world \<Rightarrow> string \<Rightarrow> string" where
  "file_text w p = (case files w p of None \<Rightarrow> [] | Some t \<Rightarrow> t)"

text \<open>The cards handed to the extractor, and the pages loaded, in the order of the trace.\<close>

fun clicks :: "event list \<Rightarrow> (string \<times> nat) list" where
  "clicks [] = []"
| "clicks (Click u i # es) = (u, i) # clicks es"
| "clicks (e # es) = clicks es"

fun gotos :: "event list \<Rightarrow> string list" where
  "gotos [] = []"
| "gotos (Goto u # es) = u # gotos es"
| "gotos (e # es) = gotos es"

text \<open>The loop over the cards, started at index \<open>k\<close>.\<close>

definition process_from ::
  "env \<Rightarrow> string \<Rightarrow> string \<Rightarrow> string \<Rightarrow> nat \<Rightarrow> card list \<Rightarrow> world \<Rightarrow> world" where
  "process_from env slug folder url k media_buttons w =
     foldl (\<lambda>w (idx, button). process_item env slug folder url idx button w) w
       (enumerate k media_buttons)"

text \<open>The cards and the identifiers of listing page \<open>k\<close> (none when the page does not load).\<close>

definition page_cards :: "env \<Rightarrow> string \<Rightarrow> nat \<Rightarrow> card list" where
  "page_cards env base_url k =
     (case site env (page_url base_url k) of LoadFails e \<Rightarrow> [] | Loaded cs \<Rightarrow> cs)"

text \<open>The identifiers of the pages \<open>1..k\<close>.\<close>

primrec seen_after :: "env \<Rightarrow> string \<Rightarrow> nat \<Rightarrow> string set" where
  "seen_after env base_url 0 = {}"
| "seen_after env base_url (Suc k) =
     seen_after env base_url k \<union> set (resolve_ids (page_cards env base_url (Suc k)))"

text \<open>Page \<open>k\<close> loads and none of its identifiers is among those of the pages before it.\<close>

definition fresh_page :: "env \<Rightarrow> string \<Rightarrow> nat \<Rightarrow> bool" where
  "fresh_page env base_url k =
     (case site env (page_url base_url k) of
        LoadFails e \<Rightarrow> False
      | Loaded cs \<Rightarrow> \<not> list_ex (\<lambda>mid. mid \<in> seen_after env base_url (k - 1)) (resolve_ids cs))"

text \<open>Page \<open>k\<close> loads and one of its identifiers is among those of the pages before it.\<close>

definition repeat_page :: "env \<Rightarrow> string \<Rightarrow> nat \<Rightarrow> bool" where
  "repeat_page env base_url k =
     (case site env (page_url base_url k) of
        LoadFails e \<Rightarrow> False
      | Loaded cs \<Rightarrow> list_ex (\<lambda>mid. mid \<in> seen_after env base_url (k - 1)) (resolve_ids cs))"

text \<open>The world after the pages \<open>1..k\<close> have been loaded and all their cards processed.\<close>

primrec pages_done :: "env \<Rightarrow> string \<Rightarrow> string \<Rightarrow> string \<Rightarrow> nat \<Rightarrow> world \<Rightarrow> world" where
  "pages_done env base_url slug folder 0 w = w"
| "pages_done env base_url slug folder (Suc k) w =
     emit NextPage
       (process_items env slug folder (page_url base_url (Suc k)) (page_cards env base_url (Suc k))
         (emit (Visiting (page_url base_url (Suc k)) (length (page_cards env base_url (Suc k))))
           (emit (Goto (page_url base_url (Suc k))) (pages_done env base_url slug folder k w))))"

text \<open>The cards of the pages \<open>1..k\<close>, each with the URL of its page and its index.\<close>

definition cards_upto :: "env \<Rightarrow> string \<Rightarrow> nat \<Rightarrow> (string \<times> nat) list" where
  "cards_upto env base_url k =
     concat (map (\<lambda>j. map (Pair (page_url base_url j)) [0..<length (page_cards env base_url j)])
       [1..<Suc k])"

text \<open>The page numbers at which a repeat was announced, in the order of the trace.\<close>

fun repeats :: "event list \<Rightarrow> nat list" where
  "repeats [] = []"
| "repeats (RepeatDetected n # es) = n # repeats es"
| "repeats (e # es) = repeats es"

section \<open>A small site for the examples\<close>

definition demo_details :: details where
  "demo_details =
     \<lparr>mp3_url = ''https://cdn.example.com/audio/grace.mp3'', title_el = Some ''Amazing Grace'',
      date_el = Some ''March 3, 2024'', speaker_el = None, series_el = Some ''Hymns''\<rparr>"

definition demo_card :: "string \<Rightarrow> card" where
  "demo_card i = \<lparr>data_id = Some i, click = Player demo_details\<rparr>"

definition broken_card :: card where
  "broken_card = \<lparr>data_id = None, click = Raises ''Timeout 10000ms exceeded''\<rparr>"

definition demo_base :: string where
  "demo_base = ''https://providencebiblefellowship.com/sermons''"

text \<open>Page 1 shows the items a and b, page 2 the items b and c; nothing else loads.\<close>

definition demo_site :: "string \<Rightarrow> page_load" where
  "demo_site u =
     (if u = demo_base then Loaded [demo_card ''a'', demo_card ''b'']
      else if u = demo_base @ ''?page=2'' then Loaded [demo_card ''b'', demo_card ''c'']
      else LoadFails ''Timeout 10000ms exceeded'')"

text \<open>One page with two cards of the same identifier; nothing else loads.\<close>

definition twin_site :: "string \<Rightarrow> page_load" where
  "twin_site u =
     (if u = demo_base then Loaded [demo_card ''x'', demo_card ''x'']
      else LoadFails ''Timeout 10000ms exceeded'')"

definition demo_env :: "(string \<Rightarrow> page_load) \<Rightarrow> nat \<Rightarrow> env" where
  "demo_env s status =
     \<lparr>site = s, http = (\<lambda>u. Response status ''ID3''), url_path = (\<lambda>u. ''/sermons''),
      entry = Inr [demo_base]\<rparr>"

definition empty_world :: world where
  "empty_world = \<lparr>files = Map.empty, trace = []\<rparr>"

section \<open>Verification\<close>

subsection \<open>Text primitives\<close>

lemma py_in_iff: "py_in p s \<longleftrightarrow> (\<exists>a b. s = a @ p @ b)"
proof (induction s)
  case Nil
  then show ?case by auto
next
  case (Cons c s)
  show ?case
  proof
    assume "py_in p (c # s)"
    then consider "prefix p (c # s)" | "py_in p s" by auto
    then show "\<exists>a b. c # s = a @ p @ b"
    proof cases
      case 1
      then obtain b where "c # s = p @ b" by (auto simp: prefix_def)
      then have "c # s = [] @ p @ b" by simp
      then show ?thesis by blast
    next
      case 2
      with Cons.IH obtain a b where "s = a @ p @ b" by blast
      then have "c # s = (c # a) @ p @ b" by simp
      then show ?thesis by blast
    qed
  next
    assume "\<exists>a b. c # s = a @ p @ b"
    then obtain a b where ab: "c # s = a @ p @ b" by blast
    show "py_in p (c # s)"
    proof (cases a)
      case Nil
      with ab have "prefix p (c # s)" by (simp add: prefix_def)
      then show ?thesis by simp
    next
      case (Cons x a')
      with ab have "s = a' @ p @ b" by simp
      with Cons.IH have "py_in p s" by blast
      then show ?thesis by simp
    qed
  qed
qed

lemma dropWhile_rev_replicate:
  "P c \<Longrightarrow> dropWhile P (replicate n c @ xs) = dropWhile P xs"
  by (induction n) auto

lemma strip_where_replicate:
  assumes P: "P c"
  shows "strip_where P (s @ replicate n c) = strip_where P s"
proof (cases "\<forall>x\<in>set s. P x")
  case True
  then have "dropWhile P (s @ replicate n c) = []" "dropWhile P s = []"
    using P by (simp_all add: dropWhile_eq_Nil_conv)
  then show ?thesis by (simp only: strip_where_def)
next
  case False
  then have "dropWhile P (s @ replicate n c) = dropWhile P s @ replicate n c"
    by (auto simp: dropWhile_append1)
  then have "dropWhile P (rev (dropWhile P (s @ replicate n c))) = dropWhile P (rev (dropWhile P s))"
    using P by (simp only: rev_append rev_replicate dropWhile_rev_replicate)
  then show ?thesis by (simp only: strip_where_def)
qed

subsection \<open>Catalog discovery\<close>

lemma get_subpages_mem:
  "l \<in> set (get_subpages links) \<longleftrightarrow>
     l \<in> set links \<and> (\<exists>a b. l = a @ ''providencebiblefellowship.com/'' @ b) \<and>
       strip_slash l \<noteq> strip_slash START_URL"
  by (auto simp add: get_subpages_def keep_link_def py_in_iff)

text \<open>
  Claim C5, as the code has it. The links returned by \<open>get_subpages\<close> are exactly the links
  of the entry page that contain the text \<open>providencebiblefellowship.com/\<close> somewhere (no
  host is parsed) and whose form with the slashes stripped from both ends differs from the entry
  URL's; the result is sorted in the order of character codes and has no duplicates; the entry
  URL followed by any number of slashes is never returned.
\<close>

theorem get_subpages_exact:
  "(\<forall>l. l \<in> set (get_subpages links) \<longleftrightarrow>
      l \<in> set links \<and> (\<exists>a b. l = a @ ''providencebiblefellowship.com/'' @ b) \<and>
      strip_slash l \<noteq> strip_slash START_URL)
   \<and> sorted (get_subpages links) \<and> distinct (get_subpages links)
   \<and> (\<forall>n. START_URL @ replicate n CHR ''/'' \<notin> set (get_subpages links))"
proof -
  have "strip_slash (START_URL @ replicate n CHR ''/'') = strip_slash START_URL" for n
    unfolding strip_slash_def by (rule strip_where_replicate) simp
  then have "\<forall>n. START_URL @ replicate n CHR ''/'' \<notin> set (get_subpages links)"
    by (simp add: get_subpages_mem)
  moreover have "sorted (get_subpages links)" "distinct (get_subpages links)"
    by (simp_all add: get_subpages_def)
  ultimately show ?thesis using get_subpages_mem by blast
qed

text \<open>
  Claim C5 as stated fails: a link on another host whose path holds the site's domain passes the
  filter, although its host is not the site's.
\<close>

theorem get_subpages_host_counterexample:
  "get_subpages [''https://example.org/providencebiblefellowship.com/x'']
     = [''https://example.org/providencebiblefellowship.com/x'']
   \<and> url_host ''https://example.org/providencebiblefellowship.com/x'' = ''example.org''
   \<and> \<not> spec_same_site ''https://example.org/providencebiblefellowship.com/x''"
  by code_simp

text \<open>The scenario of the specification: duplicates removed, entry URL excluded, sorted.\<close>

lemma get_subpages_scenario:
  "get_subpages [''https://providencebiblefellowship.com/seminars'', ''https://providencebiblefellowship.com/sermons'', ''https://providencebiblefellowship.com/sermons'', ''https://providencebiblefellowship.com/events'', ''https://providencebiblefellowship.com/seminars/'']
 = [''https://providencebiblefellowship.com/events'', ''https://providencebiblefellowship.com/sermons'']"
  by code_simp

subsection \<open>Slug sanitizer\<close>

lemma lower_char_alnum: "is_alnum c \<Longrightarrow> is_alnum (lower_char c)"
  by (cases c) (auto simp: is_alnum_def lower_char_def is_upper_def is_lower_def is_digit_def)

lemma sub_runs_keeps:
  "\<exists>c\<in>set s. Q c \<Longrightarrow> (\<And>c. Q c \<Longrightarrow> \<not> P c) \<Longrightarrow> \<exists>c\<in>set (sub_runs P r prev s). Q c"
  by (induction s arbitrary: prev) auto

lemma cleanup_numbers_keeps:
  "\<exists>c\<in>set s. Q c \<Longrightarrow> \<not> Q CHR '','' \<Longrightarrow> \<exists>c\<in>set (cleanup_numbers prev s). Q c"
  by (induction s arbitrary: prev) auto

lemma strip_where_nonempty:
  assumes "\<exists>c\<in>set s. \<not> P c" shows "strip_where P s \<noteq> []"
proof -
  from assms have "dropWhile P s \<noteq> []" by (auto simp: dropWhile_eq_Nil_conv)
  moreover have "\<exists>c\<in>set (dropWhile P s). \<not> P c"
    using assms by (metis calculation hd_dropWhile list.set_sel(1))
  ultimately have "dropWhile P (rev (dropWhile P s)) \<noteq> []"
    by (auto simp: dropWhile_eq_Nil_conv)
  then show ?thesis by (simp add: strip_where_def)
qed

lemma slugify_nonempty:
  assumes "\<exists>c\<in>set text. is_alnum c" shows "slugify text \<noteq> []"
proof -
  have nq: "\<not> is_quote c" and nd: "\<not> is_dash c" and nn: "\<not> disallowed c" if "is_alnum c" for c
    using that by (auto simp: is_alnum_def is_quote_def is_dash_def disallowed_def is_digit_def is_upper_def is_lower_def)
  have nc: "\<not> is_alnum CHR '',''"
    by (simp add: is_alnum_def is_digit_def is_upper_def is_lower_def)
  define t1 where "t1 = sub_runs is_quote ''-'' False text"
  define t3 where "t3 = filter (\<lambda>c. \<not> is_quote c) (lower t1)"
  define t4 where "t4 = cleanup_numbers None t3"
  define t5 where "t5 = sub_runs disallowed ''-'' False t4"
  define t6 where "t6 = sub_runs is_dash ''-'' False t5"
  have 1: "\<exists>c\<in>set t1. is_alnum c" unfolding t1_def using assms nq by (rule sub_runs_keeps)
  then obtain c where "c \<in> set t1" "is_alnum c" by blast
  then have "lower_char c \<in> set t3" "is_alnum (lower_char c)"
    by (auto simp: t3_def lower_def lower_char_alnum nq)
  then have 3: "\<exists>c\<in>set t3. is_alnum c" by blast
  have 4: "\<exists>c\<in>set t4. is_alnum c" unfolding t4_def using 3 nc by (rule cleanup_numbers_keeps)
  have 5: "\<exists>c\<in>set t5. is_alnum c" unfolding t5_def using 4 nn by (rule sub_runs_keeps)
  have 6: "\<exists>c\<in>set t6. is_alnum c" unfolding t6_def using 5 nd by (rule sub_runs_keeps)
  then have "\<exists>c\<in>set t6. \<not> is_dash c" using nd by blast
  then have "strip_where is_dash t6 \<noteq> []" by (rule strip_where_nonempty)
  then show ?thesis by (simp add: slugify_def t6_def t5_def t4_def t3_def t1_def)
qed

text \<open>
  Claim C2, as the code has it. The empty input gives exactly \<open>untitled\<close>, and every ASCII
  input without \<open>&\<close> that holds at least one letter or digit gives a non-empty slug. (The
  fallback is applied to the input, not to the slug.)
\<close>

theorem sanitize_filename_fallback:
  "sanitize_filename [] = ''untitled'' \<and>
   (slug_scope text \<and> (\<exists>c\<in>set text. is_alnum c) \<longrightarrow> sanitize_filename text \<noteq> [])"
proof
  show "sanitize_filename [] = ''untitled''" by code_simp
  show "slug_scope text \<and> (\<exists>c\<in>set text. is_alnum c) \<longrightarrow> sanitize_filename text \<noteq> []"
    using slugify_nonempty [of "text"] by (auto simp: sanitize_filename_def)
qed

theorem sanitize_filename_fallback_witness:
  "slug_scope ''Grace, part 2'' \<and> (\<exists>c\<in>set ''Grace, part 2''. is_alnum c)
   \<and> sanitize_filename ''Grace, part 2'' \<noteq> []"
  using sanitize_filename_fallback [of "''Grace, part 2''"]
  by (simp add: slug_scope_def is_alnum_def is_digit_def is_upper_def is_lower_def)

text \<open>
  Claim C2 as stated fails: three blanks are a non-empty, hence truthy, text, so no fallback is
  taken, and their slug is the empty string.
\<close>

theorem sanitize_filename_blank_counterexample:
  "list_all is_space ''   '' \<and> sanitize_filename ''   '' = [] \<and> sanitize_filename ''   '' \<noteq> ''untitled''"
  by code_simp

subsection \<open>Date normalizer\<close>









































subsection \<open>The world, paths and numbers\<close>

lemma clicks_append: "clicks (xs @ ys) = clicks xs @ clicks ys"
  by (induction xs rule: clicks.induct) auto

lemma gotos_append: "gotos (xs @ ys) = gotos xs @ gotos ys"
  by (induction xs rule: gotos.induct) auto

lemma file_text_append_file:
  "file_text (append_file p txt w) q = (if q = p then file_text w p @ txt else file_text w q)"
  by (simp add: file_text_def append_file_def split: option.splits)

lemma files_append_file_other:
  "q \<noteq> p \<Longrightarrow> files (append_file p txt w) q = files w q"
  by (simp add: append_file_def)

lemma dom_append_file: "dom (files (append_file p txt w)) = insert p (dom (files w))"
  by (simp add: append_file_def)

lemma trace_append_file: "trace (append_file p txt w) = trace w"
  by (simp add: append_file_def)

lemma files_emit: "files (emit e w) = files w"
  by (simp add: emit_def)

lemma trace_emit: "trace (emit e w) = trace w @ [e]"
  by (simp add: emit_def)

lemma file_text_emit: "file_text (emit e w) p = file_text w p"
  by (simp add: file_text_def emit_def)

lemma digit_char_inj: "digit_char a = digit_char b \<Longrightarrow> a mod 10 = b mod 10"
proof -
  assume h: "digit_char a = digit_char b"
  have d: "distinct ''0123456789''" by simp
  have "a mod 10 < length ''0123456789''" "b mod 10 < length ''0123456789''" by simp_all
  with h d show ?thesis unfolding digit_char_def by (simp only: nth_eq_iff_index_eq)
qed

lemma show_nat_length1: "length (show_nat n) = 1 \<longleftrightarrow> n < 10"
proof (cases "n < 10")
  case True
  then show ?thesis by (subst show_nat.simps) simp
next
  case False
  have "show_nat (n div 10) \<noteq> []" by (subst show_nat.simps) simp
  then have "length (show_nat (n div 10)) \<noteq> 0" by simp
  with False show ?thesis by (subst show_nat.simps) simp
qed

lemma show_nat_inj: "show_nat n = show_nat m \<Longrightarrow> n = m"
proof (induction n arbitrary: m rule: show_nat.induct)
  case (1 n)
  from "1.prems" have len: "n < 10 \<longleftrightarrow> m < 10"
    using show_nat_length1 [of n] show_nat_length1 [of m] by simp
  show ?case
  proof (cases "n < 10")
    case True
    with len have m: "m < 10" by simp
    from "1.prems" True m have "digit_char n = digit_char m"
      by (simp add: show_nat.simps [of n] show_nat.simps [of m])
    then have "n mod 10 = m mod 10" by (rule digit_char_inj)
    with True m show ?thesis by simp
  next
    case False
    with len have m: "\<not> m < 10" by simp
    have n_eq: "show_nat n = show_nat (n div 10) @ [digit_char n]"
      using False by (subst show_nat.simps) simp
    have m_eq: "show_nat m = show_nat (m div 10) @ [digit_char m]"
      using m by (subst show_nat.simps) simp
    from "1.prems" n_eq m_eq have "show_nat (n div 10) = show_nat (m div 10)" "digit_char n = digit_char m"
      by simp_all
    then have "n div 10 = m div 10" "n mod 10 = m mod 10"
      using "1.IH" [OF False] digit_char_inj by blast+
    then show ?thesis by (metis div_mult_mod_eq)
  qed
qed

lemma page_url_inj:
  assumes "page_url base n = page_url base m" "1 \<le> n" "1 \<le> m"
  shows "n = m"
proof (cases "n > 1")
  case True
  show ?thesis
  proof (cases "m > 1")
    case True
    with \<open>n > 1\<close> assms(1) show ?thesis by (simp add: page_url_def show_nat_inj)
  next
    case False
    with \<open>n > 1\<close> assms(1) show ?thesis by (simp add: page_url_def)
  qed
next
  case False
  with assms(2) have n: "n = 1" by simp
  show ?thesis
  proof (cases "m > 1")
    case True
    with n assms(1) show ?thesis by (simp add: page_url_def)
  next
    case False
    with assms(3) n show ?thesis by simp
  qed
qed

lemma splitext_ext_suffix: "\<exists>root. p = root @ splitext_ext p"
proof (cases "splitext_ext p = []")
  case True
  then show ?thesis by simp
next
  case False
  then have "splitext_ext p = drop (nat (rfind CHR ''.'' p)) p"
    by (simp add: splitext_ext_def Let_def split: if_splits)
  then have "p = take (nat (rfind CHR ''.'' p)) p @ splitext_ext p" by simp
  then show ?thesis by blast
qed

subsection \<open>Item extractor\<close>

text \<open>What the \<open>try\<close> block does when the player comes up, in terms of the observations.\<close>

lemma try_item_Player:
  assumes "click button = Player d"
  shows "try_item env slug folder idx button w =
     (if files w (path_join folder (item_filename slug idx d)) \<noteq> None
      then (Done, append_file (path_join folder ''metadata.txt'') (item_metadata slug idx d)
                    (emit (AlreadyDownloaded (item_filename slug idx d)) w))
      else (case http env (mp3_url d) of
              ConnectionFails e \<Rightarrow> (Raised e, emit (HttpGet (mp3_url d)) w)
            | Response status body \<Rightarrow>
                if status = 200
                then (Done, append_file (path_join folder ''metadata.txt'') (item_metadata slug idx d)
                        (emit (Downloaded (path_join folder (item_filename slug idx d)))
                          ((emit (HttpGet (mp3_url d)) w)
                             \<lparr>files := (files w)(path_join folder (item_filename slug idx d) \<mapsto> body)\<rparr>)))
                else (Done, append_file (path_join folder ''metadata.txt'') (item_metadata slug idx d)
                        (emit (FailedDownload (mp3_url d)) (emit (HttpGet (mp3_url d)) w)))))"
  using assms
  by (simp add: try_item_def download_mp3_def item_filename_def item_metadata_def spec_filename_def
      item_title_def item_date_def item_speaker_def item_series_def Let_def emit_def
      split: http_response.splits)

lemma try_item_Raises:
  "click button = Raises e \<Longrightarrow> try_item env slug folder idx button w = (Raised e, w)"
  by (simp add: try_item_def)

lemma path_join_split:
  "b \<noteq> [] \<Longrightarrow> hd b \<noteq> CHR ''/'' \<Longrightarrow>
     path_join a b = (if a = [] \<or> last a = CHR ''/'' then a else a @ ''/'') @ b"
  by (simp add: path_join_def)

lemma item_filename_shape:
  "item_filename slug idx d \<noteq> [] \<and> CHR ''_'' \<in> set (item_filename slug idx d)
   \<and> (CHR ''/'' \<notin> set slug \<longrightarrow> hd (item_filename slug idx d) \<noteq> CHR ''/'')"
  by (cases slug) (auto simp: item_filename_def spec_filename_def)

lemma item_path_not_log:
  assumes "CHR ''/'' \<notin> set slug"
  shows "path_join folder (item_filename slug idx d) \<noteq> path_join folder ''metadata.txt''"
    and "path_join folder (item_filename slug idx d) \<noteq> path_join folder ''failed.txt''"
proof -
  let ?fn = "item_filename slug idx d"
  have fn: "?fn \<noteq> []" "hd ?fn \<noteq> CHR ''/''" "CHR ''_'' \<in> set ?fn"
    using item_filename_shape [of slug idx d] assms by auto
  have "?fn \<noteq> ''metadata.txt''" "?fn \<noteq> ''failed.txt''" using fn(3) by auto
  then show "path_join folder ?fn \<noteq> path_join folder ''metadata.txt''"
    and "path_join folder ?fn \<noteq> path_join folder ''failed.txt''"
    using fn(1,2) by (simp_all add: path_join_split)
qed

lemma demo_click: "click (demo_card i) = Player demo_details"
  by (simp add: demo_card_def)

lemma demo_http: "http (demo_env s status) u = Response status ''ID3''"
  by (simp add: demo_env_def)

lemma demo_files: "files empty_world p = None"
  by (simp add: empty_world_def)

lemma demo_file_text: "file_text empty_world p = []"
  by (simp add: file_text_def empty_world_def)

lemma demo_trace: "trace empty_world = []"
  by (simp add: empty_world_def)

lemma demo_slug: "CHR ''/'' \<notin> set ''sermons''"
  by simp

lemma page_url_1: "page_url base 1 = base"
  by (simp add: page_url_def)

lemma page_url_2: "page_url base 2 = base @ ''?page=2''"
  by (simp add: page_url_def show_nat.simps [of 2] digit_char_def)

lemma demo_page1: "site (demo_env demo_site st) (page_url demo_base 1) = Loaded [demo_card ''a'', demo_card ''b'']"
  unfolding page_url_1 by (simp add: demo_env_def demo_site_def)

lemma demo_page2: "site (demo_env demo_site st) (page_url demo_base 2) = Loaded [demo_card ''b'', demo_card ''c'']"
  unfolding page_url_2 by (simp add: demo_env_def demo_site_def demo_base_def)

lemma twin_page1: "site (demo_env twin_site st) (page_url demo_base 1) = Loaded [demo_card ''x'', demo_card ''x'']"
  unfolding page_url_1 by (simp add: demo_env_def twin_site_def)

lemma twin_page2: "site (demo_env twin_site st) (page_url demo_base 2) = LoadFails ''Timeout 10000ms exceeded''"
  unfolding page_url_2 by (simp add: demo_env_def twin_site_def demo_base_def)

lemma first_page_fresh:
  assumes "site env (page_url base 1) = Loaded cs"
  shows "\<forall>k. 1 \<le> k \<and> k < 2 \<longrightarrow> fresh_page env base k"
proof (intro allI impI)
  fix k :: nat assume "1 \<le> k \<and> k < 2"
  then have k: "k = 1" by arith
  have "fresh_page env base 1"
    using assms by (simp add: fresh_page_def list_ex_iff)
  then show "fresh_page env base k" unfolding k .
qed

lemma item_metadata_text:
  "item_metadata slug idx d =
     ''Filename: '' @ item_filename slug idx d @ [CHR 0x0A]
     @ ''Title: '' @ item_title idx d @ [CHR 0x0A]
     @ ''Date: '' @ item_date d @ [CHR 0x0A]
     @ ''Speaker: '' @ item_speaker d @ [CHR 0x0A]
     @ ''Series: '' @ item_series d @ [CHR 0x0A]
     @ ''MP3 URL: '' @ mp3_url d @ [CHR 0x0A]
     @ replicate 40 CHR ''-'' @ [CHR 0x0A]"
  by (simp add: item_metadata_def render_metadata_def nl_def rule_line_def)

lemma demo_filename:
  "item_filename ''sermons'' 0 demo_details
     = ''sermons_2024-03-03_hymns_unknown-speaker_amazing-grace.mp3''"
  by code_simp

lemma demo_record:
  "item_metadata ''sermons'' 0 demo_details
     = ''Filename: sermons_2024-03-03_hymns_unknown-speaker_amazing-grace.mp3'' @ [CHR 0x0A]
       @ ''Title: Amazing Grace'' @ [CHR 0x0A]
       @ ''Date: March 3, 2024'' @ [CHR 0x0A]
       @ ''Speaker: unknown-speaker'' @ [CHR 0x0A]
       @ ''Series: Hymns'' @ [CHR 0x0A]
       @ ''MP3 URL: https://cdn.example.com/audio/grace.mp3'' @ [CHR 0x0A]
       @ ''----------------------------------------'' @ [CHR 0x0A]"
  by code_simp

text \<open>
  Claim C4. The item's player comes up, no file is at the destination path, and the HTTP GET of
  the asset returns a status other than 200. Then \<open>download_mp3\<close> returns normally after
  printing the failure line, no file is at the destination path afterwards, and the extractor
  appends exactly one metadata record for the item to \<open>metadata.txt\<close>: the six lines
  \<open>Filename\<close>, \<open>Title\<close>, \<open>Date\<close>, \<open>Speaker\<close>, \<open>Series\<close>, \<open>MP3 URL\<close> and the rule of 40 dashes.
  No other file changes.
\<close>

theorem non_200_no_file_but_metadata:
  assumes "click button = Player d"
    and "CHR ''/'' \<notin> set slug"
    and "fp = path_join folder (item_filename slug idx d)"
    and "mp = path_join folder ''metadata.txt''"
    and "files w fp = None"
    and "http env (mp3_url d) = Response status body"
    and "status \<noteq> 200"
    and "w' = process_item env slug folder url idx button w"
    and "rec = ''Filename: '' @ item_filename slug idx d @ [CHR 0x0A]
               @ ''Title: '' @ item_title idx d @ [CHR 0x0A]
               @ ''Date: '' @ item_date d @ [CHR 0x0A]
               @ ''Speaker: '' @ item_speaker d @ [CHR 0x0A]
               @ ''Series: '' @ item_series d @ [CHR 0x0A]
               @ ''MP3 URL: '' @ mp3_url d @ [CHR 0x0A]
               @ replicate 40 CHR ''-'' @ [CHR 0x0A]"
  shows "download_mp3 env (mp3_url d) fp (emit (Click url idx) w)
           = (Done, emit (FailedDownload (mp3_url d)) (emit (HttpGet (mp3_url d)) (emit (Click url idx) w)))
         \<and> w' = append_file mp rec
                  (emit (FailedDownload (mp3_url d)) (emit (HttpGet (mp3_url d)) (emit (Click url idx) w)))
         \<and> files w' fp = None
         \<and> trace w' = trace w @ [Click url idx, HttpGet (mp3_url d), FailedDownload (mp3_url d)]
         \<and> file_text w' mp = file_text w mp @ rec
         \<and> (\<forall>p. p \<noteq> mp \<longrightarrow> files w' p = files w p)"
proof -
  have rec: "item_metadata slug idx d = rec" unfolding assms(9) by (rule item_metadata_text)
  have ne: "fp \<noteq> mp" using item_path_not_log(1) [OF assms(2)] assms(3,4) by simp
  have dl: "download_mp3 env (mp3_url d) fp (emit (Click url idx) w)
           = (Done, emit (FailedDownload (mp3_url d)) (emit (HttpGet (mp3_url d)) (emit (Click url idx) w)))"
    using assms(6,7) by (simp add: download_mp3_def Let_def)
  have w': "w' = append_file mp rec
                  (emit (FailedDownload (mp3_url d)) (emit (HttpGet (mp3_url d)) (emit (Click url idx) w)))"
    unfolding rec [symmetric]
    using assms(1,3,4,5,6,7,8)
    by (simp add: process_item_def try_item_Player files_emit)
  have "files w' fp = None"
    using ne assms(5) by (simp add: w' files_append_file_other files_emit)
  moreover have "trace w' = trace w @ [Click url idx, HttpGet (mp3_url d), FailedDownload (mp3_url d)]"
    by (simp add: w' trace_append_file trace_emit)
  moreover have "file_text w' mp = file_text w mp @ rec"
    by (simp add: w' file_text_append_file file_text_emit)
  moreover have "\<forall>p. p \<noteq> mp \<longrightarrow> files w' p = files w p"
    by (simp add: w' files_append_file_other files_emit)
  ultimately show ?thesis using dl w' by blast
qed

theorem non_200_no_file_but_metadata_witness:
  "files (process_item (demo_env demo_site 404) ''sermons'' ''downloads/sermons'' demo_base 0
            (demo_card ''a'') empty_world)
     ''downloads/sermons/sermons_2024-03-03_hymns_unknown-speaker_amazing-grace.mp3'' = None
   \<and> trace (process_item (demo_env demo_site 404) ''sermons'' ''downloads/sermons'' demo_base 0
            (demo_card ''a'') empty_world)
       = [Click demo_base 0, HttpGet ''https://cdn.example.com/audio/grace.mp3'',
          FailedDownload ''https://cdn.example.com/audio/grace.mp3'']
   \<and> file_text (process_item (demo_env demo_site 404) ''sermons'' ''downloads/sermons'' demo_base 0
            (demo_card ''a'') empty_world) ''downloads/sermons/metadata.txt''
       = ''Filename: sermons_2024-03-03_hymns_unknown-speaker_amazing-grace.mp3'' @ [CHR 0x0A]
         @ ''Title: Amazing Grace'' @ [CHR 0x0A]
         @ ''Date: March 3, 2024'' @ [CHR 0x0A]
         @ ''Speaker: unknown-speaker'' @ [CHR 0x0A]
         @ ''Series: Hymns'' @ [CHR 0x0A]
         @ ''MP3 URL: https://cdn.example.com/audio/grace.mp3'' @ [CHR 0x0A]
         @ ''----------------------------------------'' @ [CHR 0x0A]"
proof -
  have st: "(404::nat) \<noteq> 200" by simp
  have fp: "''downloads/sermons/sermons_2024-03-03_hymns_unknown-speaker_amazing-grace.mp3''
              = path_join ''downloads/sermons'' (item_filename ''sermons'' 0 demo_details)"
    unfolding demo_filename by code_simp
  have mp: "''downloads/sermons/metadata.txt'' = path_join ''downloads/sermons'' ''metadata.txt''"
    by code_simp
  have url: "mp3_url demo_details = ''https://cdn.example.com/audio/grace.mp3''"
    by (simp add: demo_details_def)
  have rec: "''Filename: sermons_2024-03-03_hymns_unknown-speaker_amazing-grace.mp3'' @ [CHR 0x0A]
         @ ''Title: Amazing Grace'' @ [CHR 0x0A]
         @ ''Date: March 3, 2024'' @ [CHR 0x0A]
         @ ''Speaker: unknown-speaker'' @ [CHR 0x0A]
         @ ''Series: Hymns'' @ [CHR 0x0A]
         @ ''MP3 URL: https://cdn.example.com/audio/grace.mp3'' @ [CHR 0x0A]
         @ ''----------------------------------------'' @ [CHR 0x0A]
       = ''Filename: '' @ item_filename ''sermons'' 0 demo_details @ [CHR 0x0A]
         @ ''Title: '' @ item_title 0 demo_details @ [CHR 0x0A]
         @ ''Date: '' @ item_date demo_details @ [CHR 0x0A]
         @ ''Speaker: '' @ item_speaker demo_details @ [CHR 0x0A]
         @ ''Series: '' @ item_series demo_details @ [CHR 0x0A]
         @ ''MP3 URL: '' @ mp3_url demo_details @ [CHR 0x0A]
         @ replicate 40 CHR ''-'' @ [CHR 0x0A]"
    by (rule trans [OF demo_record [symmetric] item_metadata_text])
  note t = non_200_no_file_but_metadata [where w = empty_world and url = demo_base and idx = 0
      and folder = "''downloads/sermons''" and env = "demo_env demo_site 404"
      and button = "demo_card ''a''",
      OF demo_click demo_slug fp mp demo_files demo_http st refl rec]
  from t have 1: "files (process_item (demo_env demo_site 404) ''sermons'' ''downloads/sermons'' demo_base 0
            (demo_card ''a'') empty_world)
     ''downloads/sermons/sermons_2024-03-03_hymns_unknown-speaker_amazing-grace.mp3'' = None"
    by (rule conjunct1 [OF conjunct2 [OF conjunct2]])
  from t have 2: "trace (process_item (demo_env demo_site 404) ''sermons'' ''downloads/sermons'' demo_base 0
            (demo_card ''a'') empty_world)
       = trace empty_world @ [Click demo_base 0, HttpGet (mp3_url demo_details),
          FailedDownload (mp3_url demo_details)]"
    by (rule conjunct1 [OF conjunct2 [OF conjunct2 [OF conjunct2]]])
  from t have 3: "file_text (process_item (demo_env demo_site 404) ''sermons'' ''downloads/sermons'' demo_base 0
            (demo_card ''a'') empty_world) ''downloads/sermons/metadata.txt''
       = file_text empty_world ''downloads/sermons/metadata.txt''
         @ (''Filename: sermons_2024-03-03_hymns_unknown-speaker_amazing-grace.mp3'' @ [CHR 0x0A]
         @ ''Title: Amazing Grace'' @ [CHR 0x0A]
         @ ''Date: March 3, 2024'' @ [CHR 0x0A]
         @ ''Speaker: unknown-speaker'' @ [CHR 0x0A]
         @ ''Series: Hymns'' @ [CHR 0x0A]
         @ ''MP3 URL: https://cdn.example.com/audio/grace.mp3'' @ [CHR 0x0A]
         @ ''----------------------------------------'' @ [CHR 0x0A])"
    by (rule conjunct1 [OF conjunct2 [OF conjunct2 [OF conjunct2 [OF conjunct2]]]])
  show ?thesis
    using 1 2 [unfolded url demo_trace] 3 [unfolded demo_file_text]
    by (simp only: append_Nil simp_thms)
qed

text \<open>
  Claim C7. An item whose asset downloads with status 200 is processed twice in a row. The first
  run writes the asset; the second run finds the file, makes no HTTP request and leaves the
  asset as it is, so there is one asset file; each run appends the item's metadata record (the
  six lines \<open>Filename\<close>, \<open>Title\<close>, \<open>Date\<close>, \<open>Speaker\<close>, \<open>Series\<close>, \<open>MP3 URL\<close> and the rule of 40
  dashes), so the log holds it twice.
\<close>

theorem second_run_skips_download:
  assumes "click button = Player d"
    and "CHR ''/'' \<notin> set slug"
    and "fp = path_join folder (item_filename slug idx d)"
    and "mp = path_join folder ''metadata.txt''"
    and "files w fp = None"
    and "http env (mp3_url d) = Response 200 body"
    and "w1 = process_item env slug folder url idx button w"
    and "w2 = process_item env slug folder url idx button w1"
    and "rec = ''Filename: '' @ item_filename slug idx d @ [CHR 0x0A]
               @ ''Title: '' @ item_title idx d @ [CHR 0x0A]
               @ ''Date: '' @ item_date d @ [CHR 0x0A]
               @ ''Speaker: '' @ item_speaker d @ [CHR 0x0A]
               @ ''Series: '' @ item_series d @ [CHR 0x0A]
               @ ''MP3 URL: '' @ mp3_url d @ [CHR 0x0A]
               @ replicate 40 CHR ''-'' @ [CHR 0x0A]"
  shows "files w1 fp = Some body \<and> files w2 fp = Some body
         \<and> trace w1 = trace w @ [Click url idx, HttpGet (mp3_url d), Downloaded fp]
         \<and> trace w2 = trace w1 @ [Click url idx, AlreadyDownloaded (item_filename slug idx d)]
         \<and> file_text w1 mp = file_text w mp @ rec
         \<and> file_text w2 mp = file_text w mp @ rec @ rec
         \<and> dom (files w2) = dom (files w) \<union> {fp, mp}"
proof -
  have rec: "item_metadata slug idx d = rec" unfolding assms(9) by (rule item_metadata_text)
  have ne: "fp \<noteq> mp" using item_path_not_log(1) [OF assms(2)] assms(3,4) by simp
  have w1: "w1 = append_file mp rec
                  (emit (Downloaded fp)
                    ((emit (HttpGet (mp3_url d)) (emit (Click url idx) w))
                       \<lparr>files := (files (emit (Click url idx) w))(fp \<mapsto> body)\<rparr>))"
    unfolding rec [symmetric]
    using assms(1,3,4,5,6,7)
    by (simp add: process_item_def try_item_Player files_emit)
  have f1: "files w1 fp = Some body"
    using ne by (simp add: w1 files_append_file_other files_emit)
  have t1: "trace w1 = trace w @ [Click url idx, HttpGet (mp3_url d), Downloaded fp]"
    by (simp add: w1 trace_append_file trace_emit)
  have m1: "file_text w1 mp = file_text w mp @ rec"
    using ne by (simp add: w1 file_text_append_file file_text_emit) (simp add: file_text_def emit_def)
  have d1: "dom (files w1) = dom (files w) \<union> {fp, mp}"
    by (auto simp add: w1 dom_append_file files_emit)
  have w2: "w2 = append_file mp rec
                  (emit (AlreadyDownloaded (item_filename slug idx d)) (emit (Click url idx) w1))"
    unfolding rec [symmetric]
    using assms(1,3,4,8) f1
    by (simp add: process_item_def try_item_Player files_emit)
  have f2: "files w2 fp = Some body"
    using ne f1 by (simp add: w2 files_append_file_other files_emit)
  have t2: "trace w2 = trace w1 @ [Click url idx, AlreadyDownloaded (item_filename slug idx d)]"
    by (simp add: w2 trace_append_file trace_emit)
  have m2: "file_text w2 mp = file_text w mp @ rec @ rec"
    by (simp add: w2 file_text_append_file file_text_emit m1)
  have d2: "dom (files w2) = dom (files w) \<union> {fp, mp}"
    using d1 by (auto simp add: w2 dom_append_file files_emit)
  show ?thesis using f1 f2 t1 t2 m1 m2 d2 by blast
qed

theorem second_run_skips_download_witness:
  "files (process_item (demo_env demo_site 200) ''sermons'' ''downloads/sermons'' demo_base 0
            (demo_card ''a'')
            (process_item (demo_env demo_site 200) ''sermons'' ''downloads/sermons'' demo_base 0
               (demo_card ''a'') empty_world))
     ''downloads/sermons/sermons_2024-03-03_hymns_unknown-speaker_amazing-grace.mp3'' = Some ''ID3''
   \<and> trace (process_item (demo_env demo_site 200) ''sermons'' ''downloads/sermons'' demo_base 0
            (demo_card ''a'')
            (process_item (demo_env demo_site 200) ''sermons'' ''downloads/sermons'' demo_base 0
               (demo_card ''a'') empty_world))
       = trace (process_item (demo_env demo_site 200) ''sermons'' ''downloads/sermons'' demo_base 0
               (demo_card ''a'') empty_world)
         @ [Click demo_base 0,
            AlreadyDownloaded ''sermons_2024-03-03_hymns_unknown-speaker_amazing-grace.mp3'']
   \<and> file_text (process_item (demo_env demo_site 200) ''sermons'' ''downloads/sermons'' demo_base 0
            (demo_card ''a'')
            (process_item (demo_env demo_site 200) ''sermons'' ''downloads/sermons'' demo_base 0
               (demo_card ''a'') empty_world)) ''downloads/sermons/metadata.txt''
       = (''Filename: sermons_2024-03-03_hymns_unknown-speaker_amazing-grace.mp3'' @ [CHR 0x0A]
         @ ''Title: Amazing Grace'' @ [CHR 0x0A]
         @ ''Date: March 3, 2024'' @ [CHR 0x0A]
         @ ''Speaker: unknown-speaker'' @ [CHR 0x0A]
         @ ''Series: Hymns'' @ [CHR 0x0A]
         @ ''MP3 URL: https://cdn.example.com/audio/grace.mp3'' @ [CHR 0x0A]
         @ ''----------------------------------------'' @ [CHR 0x0A])
         @ (''Filename: sermons_2024-03-03_hymns_unknown-speaker_amazing-grace.mp3'' @ [CHR 0x0A]
         @ ''Title: Amazing Grace'' @ [CHR 0x0A]
         @ ''Date: March 3, 2024'' @ [CHR 0x0A]
         @ ''Speaker: unknown-speaker'' @ [CHR 0x0A]
         @ ''Series: Hymns'' @ [CHR 0x0A]
         @ ''MP3 URL: https://cdn.example.com/audio/grace.mp3'' @ [CHR 0x0A]
         @ ''----------------------------------------'' @ [CHR 0x0A])"
proof -
  have fp: "''downloads/sermons/sermons_2024-03-03_hymns_unknown-speaker_amazing-grace.mp3''
              = path_join ''downloads/sermons'' (item_filename ''sermons'' 0 demo_details)"
    unfolding demo_filename by code_simp
  have mp: "''downloads/sermons/metadata.txt'' = path_join ''downloads/sermons'' ''metadata.txt''"
    by code_simp
  have rec: "''Filename: sermons_2024-03-03_hymns_unknown-speaker_amazing-grace.mp3'' @ [CHR 0x0A]
         @ ''Title: Amazing Grace'' @ [CHR 0x0A]
         @ ''Date: March 3, 2024'' @ [CHR 0x0A]
         @ ''Speaker: unknown-speaker'' @ [CHR 0x0A]
         @ ''Series: Hymns'' @ [CHR 0x0A]
         @ ''MP3 URL: https://cdn.example.com/audio/grace.mp3'' @ [CHR 0x0A]
         @ ''----------------------------------------'' @ [CHR 0x0A]
       = ''Filename: '' @ item_filename ''sermons'' 0 demo_details @ [CHR 0x0A]
         @ ''Title: '' @ item_title 0 demo_details @ [CHR 0x0A]
         @ ''Date: '' @ item_date demo_details @ [CHR 0x0A]
         @ ''Speaker: '' @ item_speaker demo_details @ [CHR 0x0A]
         @ ''Series: '' @ item_series demo_details @ [CHR 0x0A]
         @ ''MP3 URL: '' @ mp3_url demo_details @ [CHR 0x0A]
         @ replicate 40 CHR ''-'' @ [CHR 0x0A]"
    by (rule trans [OF demo_record [symmetric] item_metadata_text])
  note t = second_run_skips_download [where w = empty_world and url = demo_base and idx = 0
      and folder = "''downloads/sermons''" and env = "demo_env demo_site 200"
      and button = "demo_card ''a''",
      OF demo_click demo_slug fp mp demo_files demo_http refl refl rec]
  from t have 1: "files (process_item (demo_env demo_site 200) ''sermons'' ''downloads/sermons'' demo_base 0
            (demo_card ''a'')
            (process_item (demo_env demo_site 200) ''sermons'' ''downloads/sermons'' demo_base 0
               (demo_card ''a'') empty_world))
     ''downloads/sermons/sermons_2024-03-03_hymns_unknown-speaker_amazing-grace.mp3'' = Some ''ID3''"
    by (rule conjunct1 [OF conjunct2])
  from t have 2: "trace (process_item (demo_env demo_site 200) ''sermons'' ''downloads/sermons'' demo_base 0
            (demo_card ''a'')
            (process_item (demo_env demo_site 200) ''sermons'' ''downloads/sermons'' demo_base 0
               (demo_card ''a'') empty_world))
       = trace (process_item (demo_env demo_site 200) ''sermons'' ''downloads/sermons'' demo_base 0
               (demo_card ''a'') empty_world)
         @ [Click demo_base 0, AlreadyDownloaded (item_filename ''sermons'' 0 demo_details)]"
    by (rule conjunct1 [OF conjunct2 [OF conjunct2 [OF conjunct2]]])
  from t have 3: "file_text (process_item (demo_env demo_site 200) ''sermons'' ''downloads/sermons'' demo_base 0
            (demo_card ''a'')
            (process_item (demo_env demo_site 200) ''sermons'' ''downloads/sermons'' demo_base 0
               (demo_card ''a'') empty_world)) ''downloads/sermons/metadata.txt''
       = file_text empty_world ''downloads/sermons/metadata.txt''
         @ (''Filename: sermons_2024-03-03_hymns_unknown-speaker_amazing-grace.mp3'' @ [CHR 0x0A]
         @ ''Title: Amazing Grace'' @ [CHR 0x0A]
         @ ''Date: March 3, 2024'' @ [CHR 0x0A]
         @ ''Speaker: unknown-speaker'' @ [CHR 0x0A]
         @ ''Series: Hymns'' @ [CHR 0x0A]
         @ ''MP3 URL: https://cdn.example.com/audio/grace.mp3'' @ [CHR 0x0A]
         @ ''----------------------------------------'' @ [CHR 0x0A])
         @ (''Filename: sermons_2024-03-03_hymns_unknown-speaker_amazing-grace.mp3'' @ [CHR 0x0A]
         @ ''Title: Amazing Grace'' @ [CHR 0x0A]
         @ ''Date: March 3, 2024'' @ [CHR 0x0A]
         @ ''Speaker: unknown-speaker'' @ [CHR 0x0A]
         @ ''Series: Hymns'' @ [CHR 0x0A]
         @ ''MP3 URL: https://cdn.example.com/audio/grace.mp3'' @ [CHR 0x0A]
         @ ''----------------------------------------'' @ [CHR 0x0A])"
    by (rule conjunct1 [OF conjunct2 [OF conjunct2 [OF conjunct2 [OF conjunct2 [OF conjunct2]]]]])
  show ?thesis
    using 1 2 [unfolded demo_filename] 3 [unfolded demo_file_text]
    by (simp only: append_Nil simp_thms)
qed

text \<open>
  Claim C6. The path a downloaded asset is written to is the catalog folder joined with
  \<open><slug>_<date>_<series>_<speaker>_<title><ext>\<close>, the date normalized, the three texts
  sanitized, and the extension the final piece of the asset URL as \<open>os.path.splitext\<close> cuts
  it; two items that agree on these components get the same path.
\<close>

theorem download_path_is_spec_filename:
  assumes "click button = Player d"
    and "fn = spec_filename slug (get_date_slug (item_date d)) (sanitize_filename (item_series d))
                (sanitize_filename (item_speaker d)) (sanitize_filename (item_title idx d))
                (splitext_ext (mp3_url d))"
    and "files w (path_join folder fn) = None"
    and "http env (mp3_url d) = Response 200 body"
    and "w' = process_item env slug folder url idx button w"
  shows "trace w' = trace w @ [Click url idx, HttpGet (mp3_url d), Downloaded (path_join folder fn)]
         \<and> (CHR ''/'' \<notin> set slug \<longrightarrow> files w' (path_join folder fn) = Some body)
         \<and> fn = slug @ ''_'' @ get_date_slug (item_date d) @ ''_'' @ sanitize_filename (item_series d)
                @ ''_'' @ sanitize_filename (item_speaker d) @ ''_''
                @ sanitize_filename (item_title idx d) @ splitext_ext (mp3_url d)
         \<and> (\<exists>root. mp3_url d = root @ splitext_ext (mp3_url d))
         \<and> (\<forall>idx' d'. get_date_slug (item_date d') = get_date_slug (item_date d)
               \<and> sanitize_filename (item_series d') = sanitize_filename (item_series d)
               \<and> sanitize_filename (item_speaker d') = sanitize_filename (item_speaker d)
               \<and> sanitize_filename (item_title idx' d') = sanitize_filename (item_title idx d)
               \<and> splitext_ext (mp3_url d') = splitext_ext (mp3_url d)
               \<longrightarrow> path_join folder (item_filename slug idx' d') = path_join folder fn)"
proof -
  have fn: "fn = item_filename slug idx d" unfolding assms(2) item_filename_def by simp
  have none: "files w (path_join folder (item_filename slug idx d)) = None"
    using assms(3) unfolding fn .
  have w': "w' = append_file (path_join folder ''metadata.txt'') (item_metadata slug idx d)
                  (emit (Downloaded (path_join folder (item_filename slug idx d)))
                    ((emit (HttpGet (mp3_url d)) (emit (Click url idx) w))
                       \<lparr>files := (files (emit (Click url idx) w))
                                   (path_join folder (item_filename slug idx d) \<mapsto> body)\<rparr>))"
    unfolding assms(5) process_item_def try_item_Player [OF assms(1)]
    using none assms(4) by (simp add: files_emit)
  have 1: "trace w' = trace w @ [Click url idx, HttpGet (mp3_url d), Downloaded (path_join folder fn)]"
    unfolding w' fn by (simp add: trace_append_file trace_emit)
  have 2: "CHR ''/'' \<notin> set slug \<longrightarrow> files w' (path_join folder fn) = Some body"
  proof
    assume "CHR ''/'' \<notin> set slug"
    then have "path_join folder (item_filename slug idx d) \<noteq> path_join folder ''metadata.txt''"
      by (rule item_path_not_log(1))
    then show "files w' (path_join folder fn) = Some body"
      unfolding w' fn by (simp add: files_append_file_other files_emit)
  qed
  have 3: "fn = slug @ ''_'' @ get_date_slug (item_date d) @ ''_'' @ sanitize_filename (item_series d)
                @ ''_'' @ sanitize_filename (item_speaker d) @ ''_''
                @ sanitize_filename (item_title idx d) @ splitext_ext (mp3_url d)"
    unfolding assms(2) spec_filename_def by simp
  have 4: "\<exists>root. mp3_url d = root @ splitext_ext (mp3_url d)" by (rule splitext_ext_suffix)
  have 5: "\<forall>idx' d'. get_date_slug (item_date d') = get_date_slug (item_date d)
               \<and> sanitize_filename (item_series d') = sanitize_filename (item_series d)
               \<and> sanitize_filename (item_speaker d') = sanitize_filename (item_speaker d)
               \<and> sanitize_filename (item_title idx' d') = sanitize_filename (item_title idx d)
               \<and> splitext_ext (mp3_url d') = splitext_ext (mp3_url d)
               \<longrightarrow> path_join folder (item_filename slug idx' d') = path_join folder fn"
    unfolding fn item_filename_def by simp
  show ?thesis by (rule conjI [OF 1 conjI [OF 2 conjI [OF 3 conjI [OF 4 5]]]])
qed

theorem download_path_is_spec_filename_witness:
  "trace (process_item (demo_env demo_site 200) ''sermons'' ''downloads/sermons'' demo_base 0
            (demo_card ''a'') empty_world)
     = [Click demo_base 0, HttpGet ''https://cdn.example.com/audio/grace.mp3'',
        Downloaded ''downloads/sermons/sermons_2024-03-03_hymns_unknown-speaker_amazing-grace.mp3'']"
proof -
  have fn: "spec_filename ''sermons'' (get_date_slug (item_date demo_details))
              (sanitize_filename (item_series demo_details))
              (sanitize_filename (item_speaker demo_details))
              (sanitize_filename (item_title 0 demo_details))
              (splitext_ext (mp3_url demo_details))
            = ''sermons_2024-03-03_hymns_unknown-speaker_amazing-grace.mp3''"
    by code_simp
  have pj: "path_join ''downloads/sermons'' ''sermons_2024-03-03_hymns_unknown-speaker_amazing-grace.mp3''
            = ''downloads/sermons/sermons_2024-03-03_hymns_unknown-speaker_amazing-grace.mp3''"
    by code_simp
  have url: "mp3_url demo_details = ''https://cdn.example.com/audio/grace.mp3''"
    by (simp add: demo_details_def)
  note t = download_path_is_spec_filename [where w = empty_world and url = demo_base and idx = 0
      and folder = "''downloads/sermons''" and env = "demo_env demo_site 200"
      and button = "demo_card ''a''" and slug = "''sermons''",
      OF demo_click refl demo_files demo_http refl]
  from t have "trace (process_item (demo_env demo_site 200) ''sermons'' ''downloads/sermons'' demo_base 0
            (demo_card ''a'') empty_world)
     = trace empty_world @ [Click demo_base 0, HttpGet (mp3_url demo_details),
          Downloaded (path_join ''downloads/sermons''
            (spec_filename ''sermons'' (get_date_slug (item_date demo_details))
              (sanitize_filename (item_series demo_details))
              (sanitize_filename (item_speaker demo_details))
              (sanitize_filename (item_title 0 demo_details))
              (splitext_ext (mp3_url demo_details))))]"
    by (rule conjunct1)
  then show ?thesis unfolding fn unfolding pj unfolding url demo_trace by simp
qed

lemma process_item_trace:
  "\<exists>es. trace (process_item env slug folder url idx button w) = trace w @ Click url idx # es
        \<and> clicks es = [] \<and> gotos es = []"
proof (cases "click button")
  case (Raises e)
  then show ?thesis
    by (simp add: process_item_def try_item_Raises trace_append_file trace_emit)
next
  case (Player d)
  show ?thesis
  proof (cases "files w (path_join folder (item_filename slug idx d)) \<noteq> None")
    case True
    then show ?thesis
      by (simp add: process_item_def try_item_Player [OF Player] files_emit trace_append_file trace_emit)
  next
    case False
    then show ?thesis
      by (cases "http env (mp3_url d)")
        (simp_all add: process_item_def try_item_Player [OF Player] files_emit trace_append_file trace_emit)
  qed
qed

lemma clicks_process_item:
  "clicks (trace (process_item env slug folder url idx button w)) = clicks (trace w) @ [(url, idx)]"
  using process_item_trace [of env slug folder url idx button w] by (auto simp: clicks_append)

lemma gotos_process_item:
  "gotos (trace (process_item env slug folder url idx button w)) = gotos (trace w)"
  using process_item_trace [of env slug folder url idx button w] by (auto simp: gotos_append)

lemma process_from_Nil: "process_from env slug folder url k [] w = w"
  by (simp add: process_from_def)

lemma process_from_Cons:
  "process_from env slug folder url k (c # cs) w =
     process_from env slug folder url (Suc k) cs (process_item env slug folder url k c w)"
  by (simp add: process_from_def)

lemma process_from_append:
  "process_from env slug folder url k (xs @ ys) w =
     process_from env slug folder url (k + length xs) ys (process_from env slug folder url k xs w)"
  by (induction xs arbitrary: k w) (simp_all add: process_from_Nil process_from_Cons)

lemma process_items_from: "process_items env slug folder url cs w = process_from env slug folder url 0 cs w"
  by (simp add: process_items_def process_from_def)

lemma clicks_process_from:
  "clicks (trace (process_from env slug folder url k cs w)) =
     clicks (trace w) @ map (Pair url) [k..<k + length cs]"
proof (induction cs arbitrary: k w)
  case Nil
  then show ?case by (simp add: process_from_Nil)
next
  case (Cons c cs)
  have "[k..<k + length (c # cs)] = k # [Suc k..<Suc k + length cs]"
    using upt_rec [of k "k + length (c # cs)"] by simp
  then have "map (Pair url) [k..<k + length (c # cs)]
               = (url, k) # map (Pair url) [Suc k..<Suc k + length cs]"
    by (simp only: list.map)
  then show ?case
    by (simp only: process_from_Cons Cons.IH clicks_process_item append_assoc append_Cons append_Nil)
qed

lemma gotos_process_from:
  "gotos (trace (process_from env slug folder url k cs w)) = gotos (trace w)"
  by (induction cs arbitrary: k w) (simp_all add: process_from_Nil process_from_Cons gotos_process_item)

text \<open>
  Claim C8. When the \<open>try\<close> block of the card at position \<open>length pre + 1\<close> raises, the
  handler appends one block to \<open>failed.txt\<close> holding that position, the page URL and the error
  text, and the loop goes on with the cards after it; every card of the page is handed to the
  extractor, in order, whatever fails.
\<close>

theorem item_failure_logged_and_loop_continues:
  assumes "try_item env slug folder (length pre) button
             (emit (Click url (length pre)) (process_items env slug folder url pre w)) = (Raised e, w1)"
    and "fl = path_join folder ''failed.txt''"
    and "w2 = append_file fl
                (''Item '' @ show_nat (length pre + 1) @ '' on '' @ url @ nl @ ''Error: '' @ e @ nl @ rule_line)
                (emit (ItemError (length pre + 1) e) w1)"
  shows "process_items env slug folder url (pre @ button # post) w
           = process_from env slug folder url (Suc (length pre)) post w2
         \<and> file_text w2 fl
             = file_text w1 fl @ ''Item '' @ show_nat (length pre + 1) @ '' on '' @ url @ nl
               @ ''Error: '' @ e @ nl @ rule_line
         \<and> clicks (trace (process_items env slug folder url (pre @ button # post) w))
             = clicks (trace w) @ map (Pair url) [0..<length (pre @ button # post)]"
proof -
  have pi: "process_item env slug folder url (length pre) button (process_items env slug folder url pre w) = w2"
    unfolding process_item_def assms(1) assms(3) assms(2) render_failure_def by simp
  have 1: "process_items env slug folder url (pre @ button # post) w
           = process_from env slug folder url (Suc (length pre)) post w2"
    unfolding process_items_from process_from_append process_from_Cons
    using pi unfolding process_items_from by simp
  have 2: "file_text w2 fl
             = file_text w1 fl @ ''Item '' @ show_nat (length pre + 1) @ '' on '' @ url @ nl
               @ ''Error: '' @ e @ nl @ rule_line"
    unfolding assms(3) by (simp add: file_text_append_file file_text_emit)
  have 3: "clicks (trace (process_items env slug folder url (pre @ button # post) w))
             = clicks (trace w) @ map (Pair url) [0..<length (pre @ button # post)]"
    using clicks_process_from [of env slug folder url 0 "pre @ button # post" w]
    unfolding process_items_from by simp
  show ?thesis by (rule conjI [OF 1 conjI [OF 2 3]])
qed

theorem item_failure_logged_and_loop_continues_witness:
  "clicks (trace (process_items (demo_env demo_site 200) ''sermons'' ''downloads/sermons'' demo_base
             [demo_card ''a'', broken_card, demo_card ''b''] empty_world))
     = [(demo_base, 0), (demo_base, 1), (demo_base, 2)]"
proof -
  have raised: "try_item (demo_env demo_site 200) ''sermons'' ''downloads/sermons'' (length [demo_card ''a''])
           broken_card
           (emit (Click demo_base (length [demo_card ''a'']))
              (process_items (demo_env demo_site 200) ''sermons'' ''downloads/sermons'' demo_base
                 [demo_card ''a''] empty_world))
        = (Raised ''Timeout 10000ms exceeded'',
           emit (Click demo_base (length [demo_card ''a'']))
              (process_items (demo_env demo_site 200) ''sermons'' ''downloads/sermons'' demo_base
                 [demo_card ''a''] empty_world))"
    by (rule try_item_Raises) (simp add: broken_card_def)
  have up: "[0..<length ([demo_card ''a''] @ broken_card # [demo_card ''b''])] = [0, 1, 2]"
    by code_simp
  note t = item_failure_logged_and_loop_continues [where post = "[demo_card ''b'']", OF raised refl refl]
  from t have "clicks (trace (process_items (demo_env demo_site 200) ''sermons'' ''downloads/sermons'' demo_base
             ([demo_card ''a''] @ broken_card # [demo_card ''b'']) empty_world))
     = clicks (trace empty_world) @ map (Pair demo_base) [0..<length ([demo_card ''a''] @ broken_card # [demo_card ''b''])]"
    by (rule conjunct2 [OF conjunct2])
  then show ?thesis unfolding up demo_trace by simp
qed

subsection \<open>Pagination crawler\<close>

lemma fresh_page_Loaded:
  "fresh_page env base k \<Longrightarrow> site env (page_url base k) = Loaded (page_cards env base k)"
  by (auto simp: fresh_page_def page_cards_def split: page_load.splits)

lemma fresh_page_no_repeat:
  "fresh_page env base k \<Longrightarrow>
     \<not> list_ex (\<lambda>mid. mid \<in> seen_after env base (k - 1)) (resolve_ids (page_cards env base k))"
  by (auto simp: fresh_page_def page_cards_def split: page_load.splits)

lemma crawl_pages_fresh:
  assumes "site env (page_url base p) = Loaded cs"
    and "\<not> list_ex (\<lambda>mid. mid \<in> seen) (resolve_ids cs)"
  shows "crawl_pages env base slug folder p seen w =
     crawl_pages env base slug folder (p + 1) (seen \<union> set (resolve_ids cs))
       (emit NextPage (process_items env slug folder (page_url base p) cs
          (emit (Visiting (page_url base p) (length cs)) (emit (Goto (page_url base p)) w))))"
  using assms by (subst crawl_pages.simps) simp

lemma crawl_pages_repeat:
  assumes "site env (page_url base p) = Loaded cs"
    and "list_ex (\<lambda>mid. mid \<in> seen) (resolve_ids cs)"
  shows "crawl_pages env base slug folder p seen w =
     Some (Done, emit (RepeatDetected p)
       (emit (Visiting (page_url base p) (length cs)) (emit (Goto (page_url base p)) w)))"
  using assms by (subst crawl_pages.simps) simp

lemma crawl_pages_fails:
  assumes "site env (page_url base p) = LoadFails e"
  shows "crawl_pages env base slug folder p seen w = Some (Raised e, emit (Goto (page_url base p)) w)"
  using assms by (subst crawl_pages.simps) simp

lemma crawl_unroll:
  assumes "\<forall>k. 1 \<le> k \<and> k \<le> n \<longrightarrow> fresh_page env base k"
  shows "crawl_pages env base slug folder 1 {} w =
     crawl_pages env base slug folder (Suc n) (seen_after env base n)
       (pages_done env base slug folder n w)"
  using assms
proof (induction n)
  case 0
  then show ?case by simp
next
  case (Suc n)
  then have IH: "crawl_pages env base slug folder 1 {} w =
     crawl_pages env base slug folder (Suc n) (seen_after env base n)
       (pages_done env base slug folder n w)"
    by simp
  from Suc.prems have fr: "fresh_page env base (Suc n)" by simp
  have nr: "\<not> list_ex (\<lambda>mid. mid \<in> seen_after env base n) (resolve_ids (page_cards env base (Suc n)))"
    using fresh_page_no_repeat [OF fr] by simp
  have "crawl_pages env base slug folder (Suc n) (seen_after env base n)
          (pages_done env base slug folder n w)
        = crawl_pages env base slug folder (Suc (Suc n)) (seen_after env base (Suc n))
            (pages_done env base slug folder (Suc n) w)"
    using crawl_pages_fresh [OF fresh_page_Loaded [OF fr] nr, of slug folder
        "pages_done env base slug folder n w"]
    by simp
  with IH show ?case by (rule trans)
qed

lemma gotos_pages_done:
  "gotos (trace (pages_done env base slug folder n w)) = gotos (trace w) @ map (page_url base) [1..<Suc n]"
proof (induction n)
  case 0
  then show ?case by simp
next
  case (Suc n)
  have "gotos (trace (pages_done env base slug folder (Suc n) w))
          = gotos (trace (pages_done env base slug folder n w)) @ [page_url base (Suc n)]"
    by (simp add: trace_emit gotos_append process_items_from gotos_process_from)
  also have "\<dots> = gotos (trace w) @ map (page_url base) [1..<Suc n] @ [page_url base (Suc n)]"
    by (simp only: Suc.IH append_assoc)
  also have "map (page_url base) [1..<Suc n] @ [page_url base (Suc n)] = map (page_url base) [1..<Suc (Suc n)]"
    by simp
  finally show ?case .
qed

lemma cards_upto_Suc:
  "cards_upto env base (Suc n) =
     cards_upto env base n
     @ map (Pair (page_url base (Suc n))) [0..<length (page_cards env base (Suc n))]"
  by (simp add: cards_upto_def)

lemma clicks_pages_done:
  "clicks (trace (pages_done env base slug folder n w)) = clicks (trace w) @ cards_upto env base n"
proof (induction n)
  case 0
  then show ?case by (simp add: cards_upto_def)
next
  case (Suc n)
  have "clicks (trace (pages_done env base slug folder (Suc n) w))
          = clicks (trace (pages_done env base slug folder n w))
            @ map (Pair (page_url base (Suc n))) [0..<length (page_cards env base (Suc n))]"
    using clicks_process_from [of env slug folder "page_url base (Suc n)" 0 "page_cards env base (Suc n)"]
    by (simp add: trace_emit clicks_append process_items_from)
  then show ?case by (simp only: Suc.IH cards_upto_Suc append_assoc)
qed

lemma cards_upto_pages:
  "(u, i) \<in> set (cards_upto env base n) \<Longrightarrow> \<exists>j. 1 \<le> j \<and> j \<le> n \<and> u = page_url base j"
  by (auto simp: cards_upto_def)

text \<open>
  Claim C1. Let page \<open>N\<close> be the first page one of whose identifiers is among those of the
  pages before it, every earlier page loading and repeating nothing. Then the crawl of the
  catalog ends normally; it has loaded the pages \<open>1..N\<close> in this order, and the cards handed to
  the extractor are those of the pages \<open>1..N-1\<close>: none of page \<open>N\<close>.
\<close>

theorem crawl_stops_at_first_repeat:
  assumes "\<forall>k. 1 \<le> k \<and> k < N \<longrightarrow> fresh_page env base k"
    and "repeat_page env base N"
    and "slug = last_segment (url_path env base)"
    and "folder = path_join ''downloads'' slug"
    and "w' = emit (RepeatDetected N)
                (emit (Visiting (page_url base N) (length (page_cards env base N)))
                  (emit (Goto (page_url base N)) (pages_done env base slug folder (N - 1) w)))"
  shows "scrape_media_items env base w = Some (Done, w')
         \<and> gotos (trace w') = gotos (trace w) @ map (page_url base) [1..<Suc N]
         \<and> clicks (trace w') = clicks (trace w) @ cards_upto env base (N - 1)
         \<and> (\<forall>i. (page_url base N, i) \<notin> set (cards_upto env base (N - 1)))"
proof -
  from assms(2) obtain cs where cs: "site env (page_url base N) = Loaded cs"
      and rep: "list_ex (\<lambda>mid. mid \<in> seen_after env base (N - 1)) (resolve_ids cs)"
    by (auto simp: repeat_page_def split: page_load.splits)
  from rep have "seen_after env base (N - 1) \<noteq> {}" by (auto simp: list_ex_iff)
  then have "N - 1 \<noteq> 0" by (cases "N - 1") auto
  then obtain n where N: "N = Suc n" "1 \<le> n" by (cases N) auto
  have pc: "page_cards env base N = cs" using cs by (simp add: page_cards_def)
  have fr: "\<forall>k. 1 \<le> k \<and> k \<le> n \<longrightarrow> fresh_page env base k" using assms(1) N by simp
  have "crawl_pages env base slug folder 1 {} w =
     crawl_pages env base slug folder (Suc n) (seen_after env base n) (pages_done env base slug folder n w)"
    by (rule crawl_unroll [OF fr])
  also have "\<dots> = Some (Done, w')"
    using crawl_pages_repeat [of env base "Suc n" cs "seen_after env base n" slug folder
        "pages_done env base slug folder n w"] cs rep N assms(5) pc
    by simp
  finally have 1: "scrape_media_items env base w = Some (Done, w')"
    using assms(3,4) by (simp add: scrape_media_items_def)
  have 2: "gotos (trace w') = gotos (trace w) @ map (page_url base) [1..<Suc N]"
    unfolding assms(5) N by (simp add: trace_emit gotos_append gotos_pages_done)
  have 3: "clicks (trace w') = clicks (trace w) @ cards_upto env base (N - 1)"
    unfolding assms(5) by (simp add: trace_emit clicks_append clicks_pages_done)
  have 4: "\<forall>i. (page_url base N, i) \<notin> set (cards_upto env base (N - 1))"
  proof (intro allI notI)
    fix i assume "(page_url base N, i) \<in> set (cards_upto env base (N - 1))"
    then obtain j where j: "1 \<le> j" "j \<le> N - 1" "page_url base N = page_url base j"
      using cards_upto_pages by blast
    then have "N = j" using page_url_inj [of base N j] N by simp
    with j N show False by simp
  qed
  show ?thesis by (rule conjI [OF 1 conjI [OF 2 conjI [OF 3 4]]])
qed

theorem crawl_stops_at_first_repeat_witness:
  "repeat_page (demo_env demo_site 200) demo_base 2
   \<and> (\<exists>w'. scrape_media_items (demo_env demo_site 200) demo_base empty_world = Some (Done, w')
         \<and> gotos (trace w') = [demo_base, demo_base @ ''?page=2'']
         \<and> clicks (trace w') = [(demo_base, 0), (demo_base, 1)])"
proof -
  have pc1: "page_cards (demo_env demo_site 200) demo_base (Suc 0) = [demo_card ''a'', demo_card ''b'']"
    using demo_page1 [of 200] by (simp add: page_cards_def)
  have seen1: "seen_after (demo_env demo_site 200) demo_base (2 - 1) = {''a'', ''b''}"
    by (auto simp add: pc1 resolve_ids_def resolve_id_def demo_card_def)
  have rp: "repeat_page (demo_env demo_site 200) demo_base 2"
    unfolding repeat_page_def demo_page2 seen1
    by (simp add: resolve_ids_def resolve_id_def demo_card_def)
  have cu: "cards_upto (demo_env demo_site 200) demo_base (2 - 1) = [(demo_base, 0), (demo_base, 1)]"
    by (simp add: cards_upto_def pc1 page_url_def)
  have up: "map (page_url demo_base) [1..<Suc 2] = [demo_base, demo_base @ ''?page=2'']"
  proof -
    have "[1..<Suc 2] = [1, 2]" by code_simp
    then show ?thesis by (simp only: list.map page_url_1 page_url_2)
  qed
  note t = crawl_stops_at_first_repeat [where w = empty_world,
      OF first_page_fresh [OF demo_page1] rp refl refl refl]
  from t have 1: "scrape_media_items (demo_env demo_site 200) demo_base empty_world = Some (Done,
      emit (RepeatDetected 2)
        (emit (Visiting (page_url demo_base 2) (length (page_cards (demo_env demo_site 200) demo_base 2)))
          (emit (Goto (page_url demo_base 2))
            (pages_done (demo_env demo_site 200) demo_base (last_segment (url_path (demo_env demo_site 200) demo_base))
               (path_join ''downloads'' (last_segment (url_path (demo_env demo_site 200) demo_base))) (2 - 1) empty_world))))"
    by (rule conjunct1)
  from t have 2: "gotos (trace (emit (RepeatDetected 2)
        (emit (Visiting (page_url demo_base 2) (length (page_cards (demo_env demo_site 200) demo_base 2)))
          (emit (Goto (page_url demo_base 2))
            (pages_done (demo_env demo_site 200) demo_base (last_segment (url_path (demo_env demo_site 200) demo_base))
               (path_join ''downloads'' (last_segment (url_path (demo_env demo_site 200) demo_base))) (2 - 1) empty_world)))))
      = [demo_base, demo_base @ ''?page=2'']"
    unfolding up demo_trace by simp
  from t have 3: "clicks (trace (emit (RepeatDetected 2)
        (emit (Visiting (page_url demo_base 2) (length (page_cards (demo_env demo_site 200) demo_base 2)))
          (emit (Goto (page_url demo_base 2))
            (pages_done (demo_env demo_site 200) demo_base (last_segment (url_path (demo_env demo_site 200) demo_base))
               (path_join ''downloads'' (last_segment (url_path (demo_env demo_site 200) demo_base))) (2 - 1) empty_world)))))
      = [(demo_base, 0), (demo_base, 1)]"
    unfolding cu demo_trace by simp
  show ?thesis using rp 1 2 3 by blast
qed

lemma repeats_append: "repeats (xs @ ys) = repeats xs @ repeats ys"
  by (induction xs rule: repeats.induct) auto

lemma process_item_repeats:
  "repeats (trace (process_item env slug folder url idx button w)) = repeats (trace w)"
proof (cases "click button")
  case (Raises e)
  then show ?thesis
    by (simp add: process_item_def try_item_Raises trace_append_file trace_emit repeats_append)
next
  case (Player d)
  show ?thesis
  proof (cases "files w (path_join folder (item_filename slug idx d)) \<noteq> None")
    case True
    then show ?thesis
      by (simp add: process_item_def try_item_Player [OF Player] files_emit trace_append_file
          trace_emit repeats_append)
  next
    case False
    then show ?thesis
      by (cases "http env (mp3_url d)")
        (simp_all add: process_item_def try_item_Player [OF Player] files_emit trace_append_file
          trace_emit repeats_append)
  qed
qed

lemma repeats_process_from:
  "repeats (trace (process_from env slug folder url k cs w)) = repeats (trace w)"
  by (induction cs arbitrary: k w)
    (simp_all add: process_from_Nil process_from_Cons process_item_repeats)

lemma process_from_trace_ext:
  "\<exists>es. trace (process_from env slug folder url k cs w) = trace w @ es"
proof (induction cs arbitrary: k w)
  case Nil
  then show ?case by (simp add: process_from_Nil)
next
  case (Cons c cs)
  obtain es1 where 1: "trace (process_item env slug folder url k c w) = trace w @ Click url k # es1"
    using process_item_trace [of env slug folder url k c w] by blast
  obtain es2 where 2: "trace (process_from env slug folder url (Suc k) cs (process_item env slug folder url k c w))
      = trace (process_item env slug folder url k c w) @ es2"
    using Cons.IH by blast
  have "trace (process_from env slug folder url k (c # cs) w) = trace w @ (Click url k # es1 @ es2)"
    unfolding process_from_Cons 2 1 by simp
  then show ?case by blast
qed

lemma crawl_pages_trace_ext:
  assumes "crawl_pages env base slug folder p seen v = Some r"
  shows "\<exists>es. trace (snd r) = trace v @ es"
proof (rule crawl_pages.raw_induct
    [where P = "\<lambda>env base slug folder p seen v r. \<exists>es. trace (snd r) = trace v @ es", OF _ assms],
    goal_cases)
  case (1 crawl env base slug folder p seen v r)
  show ?case
  proof (cases "site env (page_url base p)")
    case (LoadFails e)
    with "1"(2) have "r = (Raised e, emit (Goto (page_url base p)) v)" by simp
    then show ?thesis by (simp add: trace_emit)
  next
    case (Loaded cs)
    show ?thesis
    proof (cases "list_ex (\<lambda>mid. mid \<in> seen) (resolve_ids cs)")
      case True
      with "1"(2) Loaded have "r = (Done, emit (RepeatDetected p)
            (emit (Visiting (page_url base p) (length cs)) (emit (Goto (page_url base p)) v)))"
        by simp
      then show ?thesis by (simp add: trace_emit)
    next
      case False
      let ?v2 = "emit NextPage (process_items env slug folder (page_url base p) cs
                   (emit (Visiting (page_url base p) (length cs)) (emit (Goto (page_url base p)) v)))"
      from "1"(2) Loaded False have "crawl env base slug folder (p + 1) (seen \<union> set (resolve_ids cs)) ?v2 = Some r"
        by simp
      then obtain es where es: "trace (snd r) = trace ?v2 @ es" using "1"(1) by blast
      obtain es' where es': "trace (process_items env slug folder (page_url base p) cs
                   (emit (Visiting (page_url base p) (length cs)) (emit (Goto (page_url base p)) v)))
                = trace (emit (Visiting (page_url base p) (length cs)) (emit (Goto (page_url base p)) v)) @ es'"
        unfolding process_items_from using process_from_trace_ext by blast
      have "trace (snd r) = trace v @ ([Goto (page_url base p), Visiting (page_url base p) (length cs)] @ es' @ [NextPage] @ es)"
        unfolding es trace_emit es' by simp
      then show ?thesis by blast
    qed
  qed
qed

lemma crawl_pages_starts:
  assumes "crawl_pages env base slug folder p seen v = Some r"
  shows "\<exists>es. trace (snd r) = trace v @ Goto (page_url base p) # es"
proof (cases "site env (page_url base p)")
  case (LoadFails e)
  then have "r = (Raised e, emit (Goto (page_url base p)) v)"
    using assms crawl_pages_fails [OF LoadFails, where slug = slug and folder = folder and seen = seen and w = v] by simp
  then show ?thesis by (simp add: trace_emit)
next
  case (Loaded cs)
  show ?thesis
  proof (cases "list_ex (\<lambda>mid. mid \<in> seen) (resolve_ids cs)")
    case True
    then have "r = (Done, emit (RepeatDetected p)
            (emit (Visiting (page_url base p) (length cs)) (emit (Goto (page_url base p)) v)))"
      using assms crawl_pages_repeat [OF Loaded True, where slug = slug and folder = folder and w = v] by simp
    then show ?thesis by (simp add: trace_emit)
  next
    case False
    let ?v1 = "process_items env slug folder (page_url base p) cs
                   (emit (Visiting (page_url base p) (length cs)) (emit (Goto (page_url base p)) v))"
    have "crawl_pages env base slug folder (p + 1) (seen \<union> set (resolve_ids cs)) (emit NextPage ?v1) = Some r"
      using assms crawl_pages_fresh [OF Loaded False, where slug = slug and folder = folder and w = v] by simp
    then obtain es where es: "trace (snd r) = trace (emit NextPage ?v1) @ es"
      using crawl_pages_trace_ext by blast
    obtain es' where es': "trace ?v1
                = trace (emit (Visiting (page_url base p) (length cs)) (emit (Goto (page_url base p)) v)) @ es'"
      unfolding process_items_from using process_from_trace_ext by blast
    have "trace (snd r) = trace v @ Goto (page_url base p) # (Visiting (page_url base p) (length cs) # es' @ [NextPage] @ es)"
      unfolding es trace_emit es' by simp
    then show ?thesis by blast
  qed
qed

lemma scrape_starts:
  assumes "scrape_media_items env url v = Some r"
  shows "\<exists>es. trace (snd r) = trace v @ Goto url # es"
  using crawl_pages_starts [of env url _ _ 1 "{}" v r] assms
  by (simp add: scrape_media_items_def Let_def page_url_def)

lemma run_catalogs_trace_ext:
  "run_catalogs env urls v = Some wz \<Longrightarrow> \<exists>es. trace wz = trace v @ es"
proof (induction urls arbitrary: v)
  case Nil
  then show ?case by simp
next
  case (Cons u urls)
  from Cons.prems obtain oc v1 where r: "scrape_media_items env u v = Some (oc, v1)"
    by (cases "scrape_media_items env u v") auto
  obtain es1 where es1: "trace v1 = trace v @ Goto u # es1" using scrape_starts [OF r] by auto
  show ?case
  proof (cases oc)
    case Done
    with Cons.prems r have "run_catalogs env urls v1 = Some wz" by simp
    then obtain es where "trace wz = trace v1 @ es" using Cons.IH by blast
    then have "trace wz = trace v @ (Goto u # es1 @ es)" unfolding es1 by simp
    then show ?thesis by blast
  next
    case (Raised e)
    with Cons.prems r have "run_catalogs env urls (emit (CatalogFailed u e) v1) = Some wz" by simp
    then obtain es where "trace wz = trace (emit (CatalogFailed u e) v1) @ es" using Cons.IH by blast
    then have "trace wz = trace v @ (Goto u # es1 @ [CatalogFailed u e] @ es)"
      unfolding trace_emit es1 by simp
    then show ?thesis by blast
  qed
qed

lemma run_catalogs_starts:
  assumes "run_catalogs env (u # urls) v = Some wz"
  shows "\<exists>es. trace wz = trace v @ Goto u # es"
proof -
  from assms obtain oc v1 where r: "scrape_media_items env u v = Some (oc, v1)"
    by (cases "scrape_media_items env u v") auto
  obtain es1 where es1: "trace v1 = trace v @ Goto u # es1" using scrape_starts [OF r] by auto
  show ?thesis
  proof (cases oc)
    case Done
    with assms r have "run_catalogs env urls v1 = Some wz" by simp
    then obtain es where "trace wz = trace v1 @ es" using run_catalogs_trace_ext by blast
    then have "trace wz = trace v @ Goto u # (es1 @ es)" unfolding es1 by simp
    then show ?thesis by blast
  next
    case (Raised e)
    with assms r have "run_catalogs env urls (emit (CatalogFailed u e) v1) = Some wz" by simp
    then obtain es where "trace wz = trace (emit (CatalogFailed u e) v1) @ es"
      using run_catalogs_trace_ext by blast
    then have "trace wz = trace v @ Goto u # (es1 @ [CatalogFailed u e] @ es)"
      unfolding trace_emit es1 by simp
    then show ?thesis by blast
  qed
qed

text \<open>
  Claim C10. A page loads with two cards, at positions \<open>i < j\<close>, that resolve to the same
  identifier, and no identifier of the page has been seen on an earlier page. Then no repeat is
  announced for the page, every card of the page, the two among them, is handed to the
  extractor, and the crawl goes on with the next page: it ends with that page's exception when
  that page does not load, it ends there when that page repeats an identifier, and whatever it
  returns has loaded the next page right after this one's cards.
\<close>

theorem duplicate_ids_within_page_no_repeat:
  assumes "site env (page_url base p) = Loaded cs"
    and "i < j" and "j < length cs"
    and "resolve_ids cs ! i = resolve_ids cs ! j"
    and "\<forall>mid\<in>set (resolve_ids cs). mid \<notin> seen"
    and "w1 = process_items env slug folder (page_url base p) cs
                (emit (Visiting (page_url base p) (length cs)) (emit (Goto (page_url base p)) w))"
  shows "crawl_pages env base slug folder p seen w
           = crawl_pages env base slug folder (p + 1) (seen \<union> set (resolve_ids cs)) (emit NextPage w1)
         \<and> clicks (trace w1) = clicks (trace w) @ map (Pair (page_url base p)) [0..<length cs]
         \<and> (page_url base p, i) \<in> set (clicks (trace w1))
         \<and> (page_url base p, j) \<in> set (clicks (trace w1))
         \<and> repeats (trace w1) = repeats (trace w)
         \<and> (\<forall>e. site env (page_url base (p + 1)) = LoadFails e \<longrightarrow>
               crawl_pages env base slug folder p seen w
                 = Some (Raised e, emit (Goto (page_url base (p + 1))) (emit NextPage w1)))
         \<and> (\<forall>cs'. site env (page_url base (p + 1)) = Loaded cs'
                 \<and> list_ex (\<lambda>mid. mid \<in> seen \<union> set (resolve_ids cs)) (resolve_ids cs') \<longrightarrow>
               crawl_pages env base slug folder p seen w
                 = Some (Done, emit (RepeatDetected (p + 1))
                     (emit (Visiting (page_url base (p + 1)) (length cs'))
                       (emit (Goto (page_url base (p + 1))) (emit NextPage w1)))))
         \<and> (\<forall>r. crawl_pages env base slug folder p seen w = Some r \<longrightarrow>
               (\<exists>es. trace (snd r) = trace w1 @ NextPage # Goto (page_url base (p + 1)) # es))"
proof -
  have nr: "\<not> list_ex (\<lambda>mid. mid \<in> seen) (resolve_ids cs)"
    using assms(5) by (simp add: list_ex_iff)
  have 1: "crawl_pages env base slug folder p seen w
           = crawl_pages env base slug folder (p + 1) (seen \<union> set (resolve_ids cs)) (emit NextPage w1)"
    unfolding assms(6) by (rule crawl_pages_fresh [OF assms(1) nr])
  have 2: "clicks (trace w1) = clicks (trace w) @ map (Pair (page_url base p)) [0..<length cs]"
    unfolding assms(6) process_items_from
    using clicks_process_from [of env slug folder "page_url base p" 0 cs]
    by (simp add: trace_emit clicks_append)
  have "i < length cs" using assms(2,3) by simp
  then have 3: "(page_url base p, i) \<in> set (clicks (trace w1))" unfolding 2 by simp
  have 4: "(page_url base p, j) \<in> set (clicks (trace w1))" unfolding 2 using assms(3) by simp
  have 5: "repeats (trace w1) = repeats (trace w)"
    unfolding assms(6) process_items_from
    by (simp add: repeats_process_from trace_emit repeats_append)
  have 6: "\<forall>e. site env (page_url base (p + 1)) = LoadFails e \<longrightarrow>
               crawl_pages env base slug folder p seen w
                 = Some (Raised e, emit (Goto (page_url base (p + 1))) (emit NextPage w1))"
    unfolding 1 using crawl_pages_fails by blast
  have 7: "\<forall>cs'. site env (page_url base (p + 1)) = Loaded cs'
                 \<and> list_ex (\<lambda>mid. mid \<in> seen \<union> set (resolve_ids cs)) (resolve_ids cs') \<longrightarrow>
               crawl_pages env base slug folder p seen w
                 = Some (Done, emit (RepeatDetected (p + 1))
                     (emit (Visiting (page_url base (p + 1)) (length cs'))
                       (emit (Goto (page_url base (p + 1))) (emit NextPage w1))))"
    unfolding 1 using crawl_pages_repeat by blast
  have 8: "\<forall>r. crawl_pages env base slug folder p seen w = Some r \<longrightarrow>
               (\<exists>es. trace (snd r) = trace w1 @ NextPage # Goto (page_url base (p + 1)) # es)"
  proof (intro allI impI)
    fix r assume "crawl_pages env base slug folder p seen w = Some r"
    then have "crawl_pages env base slug folder (p + 1) (seen \<union> set (resolve_ids cs)) (emit NextPage w1) = Some r"
      unfolding 1 .
    then obtain es where "trace (snd r) = trace (emit NextPage w1) @ Goto (page_url base (p + 1)) # es"
      using crawl_pages_starts by blast
    then have "trace (snd r) = trace w1 @ NextPage # Goto (page_url base (p + 1)) # es"
      by (simp add: trace_emit)
    then show "\<exists>es. trace (snd r) = trace w1 @ NextPage # Goto (page_url base (p + 1)) # es" by blast
  qed
  show ?thesis
    by (rule conjI [OF 1 conjI [OF 2 conjI [OF 3 conjI [OF 4 conjI [OF 5 conjI [OF 6 conjI [OF 7 8]]]]]]])
qed

theorem duplicate_ids_within_page_no_repeat_witness:
  "resolve_ids [demo_card ''x'', demo_card ''x''] = [''x'', ''x'']
   \<and> (\<exists>w'. scrape_media_items (demo_env twin_site 200) demo_base empty_world
              = Some (Raised ''Timeout 10000ms exceeded'', w')
         \<and> trace w' =
             [Goto demo_base, Visiting demo_base 2,
              Click demo_base 0, HttpGet ''https://cdn.example.com/audio/grace.mp3'',
              Downloaded ''downloads/sermons/sermons_2024-03-03_hymns_unknown-speaker_amazing-grace.mp3'',
              Click demo_base 1,
              AlreadyDownloaded ''sermons_2024-03-03_hymns_unknown-speaker_amazing-grace.mp3'',
              NextPage, Goto (demo_base @ ''?page=2'')])"
proof -
  let ?E = "demo_env twin_site 200"
  let ?slug = "last_segment (url_path ?E demo_base)"
  let ?folder = "path_join ''downloads'' ?slug"
  let ?w1 = "process_items ?E ?slug ?folder (page_url demo_base 1) [demo_card ''x'', demo_card ''x'']
               (emit (Visiting (page_url demo_base 1) (length [demo_card ''x'', demo_card ''x'']))
                  (emit (Goto (page_url demo_base 1)) empty_world))"
  have ids: "resolve_ids [demo_card ''x'', demo_card ''x''] = [''x'', ''x'']"
    by (simp add: resolve_ids_def resolve_id_def demo_card_def)
  have dup: "resolve_ids [demo_card ''x'', demo_card ''x''] ! 0 = resolve_ids [demo_card ''x'', demo_card ''x''] ! 1"
    unfolding ids by simp
  have lt1: "(0::nat) < 1" by simp
  have lt2: "1 < length [demo_card ''x'', demo_card ''x'']" by simp
  have unseen: "\<forall>mid\<in>set (resolve_ids [demo_card ''x'', demo_card ''x'']). mid \<notin> {}" by simp
  have two: "(1::nat) + 1 = 2" by simp
  have next_fails: "site ?E (page_url demo_base (1 + 1)) = LoadFails ''Timeout 10000ms exceeded''"
    unfolding two by (rule twin_page2)
  note t = duplicate_ids_within_page_no_repeat [where w = empty_world and slug = ?slug
      and folder = ?folder, OF twin_page1 lt1 lt2 dup unseen refl]
  from t have "\<forall>e. site ?E (page_url demo_base (1 + 1)) = LoadFails e \<longrightarrow>
       crawl_pages ?E demo_base ?slug ?folder 1 {} empty_world
         = Some (Raised e, emit (Goto (page_url demo_base (1 + 1))) (emit NextPage ?w1))"
    by (rule conjunct1 [OF conjunct2 [OF conjunct2 [OF conjunct2 [OF conjunct2 [OF conjunct2]]]]])
  with next_fails have "crawl_pages ?E demo_base ?slug ?folder 1 {} empty_world
         = Some (Raised ''Timeout 10000ms exceeded'',
             emit (Goto (page_url demo_base (1 + 1))) (emit NextPage ?w1))"
    by blast
  then have 1: "scrape_media_items ?E demo_base empty_world
         = Some (Raised ''Timeout 10000ms exceeded'',
             emit (Goto (page_url demo_base (1 + 1))) (emit NextPage ?w1))"
    unfolding scrape_media_items_def Let_def .
  have 2: "trace (emit (Goto (page_url demo_base (1 + 1))) (emit NextPage ?w1)) =
             [Goto demo_base, Visiting demo_base 2,
              Click demo_base 0, HttpGet ''https://cdn.example.com/audio/grace.mp3'',
              Downloaded ''downloads/sermons/sermons_2024-03-03_hymns_unknown-speaker_amazing-grace.mp3'',
              Click demo_base 1,
              AlreadyDownloaded ''sermons_2024-03-03_hymns_unknown-speaker_amazing-grace.mp3'',
              NextPage, Goto (demo_base @ ''?page=2'')]"
    by code_simp
  show ?thesis using ids 1 2 by blast
qed

subsection \<open>The main loop\<close>

lemma run_catalogs_total:
  "\<forall>u\<in>set urls. \<forall>v. scrape_media_items env u v \<noteq> None \<Longrightarrow> run_catalogs env urls w \<noteq> None"
proof (induction urls arbitrary: w)
  case Nil
  then show ?case by simp
next
  case (Cons u urls)
  from Cons.prems have "scrape_media_items env u w \<noteq> None" by simp
  then obtain oc w1 where r: "scrape_media_items env u w = Some (oc, w1)"
    by (cases "scrape_media_items env u w") auto
  have IH: "run_catalogs env urls v \<noteq> None" for v using Cons.IH Cons.prems by simp
  show ?case using r IH by (cases oc) simp_all
qed

text \<open>
  Claim C9. When page \<open>N\<close> of a catalog does not load, after \<open>N-1\<close> pages that did, the crawl
  of that catalog ends with the exception. The main loop then prints the failure line for the
  catalog and goes on: whatever it returns has that line right after the failed crawl, followed
  at once by the load of the next catalog's first page; when the failed catalog is the last one
  the run ends normally with that line; when the next catalog fails at its first page the run
  ends normally with both lines. The main loop itself never raises: it returns whenever the
  crawl of every catalog ends.
\<close>

theorem page_load_failure_aborts_only_catalog:
  assumes "\<forall>k. 1 \<le> k \<and> k < N \<longrightarrow> fresh_page env url k"
    and "1 \<le> N"
    and "site env (page_url url N) = LoadFails e"
    and "slug = last_segment (url_path env url)"
    and "folder = path_join ''downloads'' slug"
    and "w1 = emit (Goto (page_url url N)) (pages_done env url slug folder (N - 1) w)"
  shows "scrape_media_items env url w = Some (Raised e, w1)
         \<and> run_catalogs env (url # urls) w = run_catalogs env urls (emit (CatalogFailed url e) w1)
         \<and> ((\<forall>u\<in>set urls. \<forall>v. scrape_media_items env u v \<noteq> None)
              \<longrightarrow> run_catalogs env (url # urls) w \<noteq> None)
         \<and> run_catalogs env [url] w = Some (emit (CatalogFailed url e) w1)
         \<and> (\<forall>wz. run_catalogs env (url # urls) w = Some wz \<longrightarrow>
               (\<exists>es. trace wz = trace w1 @ CatalogFailed url e # es))
         \<and> (\<forall>nxt rest wz. urls = nxt # rest \<and> run_catalogs env (url # urls) w = Some wz \<longrightarrow>
               (\<exists>es. trace wz = trace w1 @ CatalogFailed url e # Goto nxt # es))
         \<and> (\<forall>nxt e2. site env nxt = LoadFails e2 \<longrightarrow>
               run_catalogs env [url, nxt] w
                 = Some (emit (CatalogFailed nxt e2) (emit (Goto nxt) (emit (CatalogFailed url e) w1))))"
proof -
  from assms(2) obtain n where N: "N = Suc n" by (cases N) auto
  have fr: "\<forall>k. 1 \<le> k \<and> k \<le> n \<longrightarrow> fresh_page env url k" using assms(1) N by simp
  have "crawl_pages env url slug folder 1 {} w =
     crawl_pages env url slug folder (Suc n) (seen_after env url n) (pages_done env url slug folder n w)"
    by (rule crawl_unroll [OF fr])
  also have "\<dots> = Some (Raised e, w1)"
    unfolding assms(6) N using crawl_pages_fails [of env url "Suc n" e] assms(3) N by simp
  finally have 1: "scrape_media_items env url w = Some (Raised e, w1)"
    unfolding scrape_media_items_def Let_def assms(4) assms(5) .
  have 2: "run_catalogs env (url # urls) w = run_catalogs env urls (emit (CatalogFailed url e) w1)"
    using 1 by simp
  have 3: "(\<forall>u\<in>set urls. \<forall>v. scrape_media_items env u v \<noteq> None)
              \<longrightarrow> run_catalogs env (url # urls) w \<noteq> None"
    unfolding 2 using run_catalogs_total by blast
  have 4: "run_catalogs env [url] w = Some (emit (CatalogFailed url e) w1)"
    using 1 by simp
  have 5: "\<forall>wz. run_catalogs env (url # urls) w = Some wz \<longrightarrow>
               (\<exists>es. trace wz = trace w1 @ CatalogFailed url e # es)"
  proof (intro allI impI)
    fix wz assume "run_catalogs env (url # urls) w = Some wz"
    then have "run_catalogs env urls (emit (CatalogFailed url e) w1) = Some wz" unfolding 2 .
    then obtain es where "trace wz = trace (emit (CatalogFailed url e) w1) @ es"
      using run_catalogs_trace_ext by blast
    then have "trace wz = trace w1 @ CatalogFailed url e # es" by (simp add: trace_emit)
    then show "\<exists>es. trace wz = trace w1 @ CatalogFailed url e # es" by blast
  qed
  have 6: "\<forall>nxt rest wz. urls = nxt # rest \<and> run_catalogs env (url # urls) w = Some wz \<longrightarrow>
               (\<exists>es. trace wz = trace w1 @ CatalogFailed url e # Goto nxt # es)"
  proof (intro allI impI)
    fix nxt rest wz assume a: "urls = nxt # rest \<and> run_catalogs env (url # urls) w = Some wz"
    then have u: "urls = nxt # rest" and "run_catalogs env (url # urls) w = Some wz" by blast+
    then have "run_catalogs env urls (emit (CatalogFailed url e) w1) = Some wz" unfolding 2 by blast
    then have "run_catalogs env (nxt # rest) (emit (CatalogFailed url e) w1) = Some wz"
      unfolding u .
    then obtain es where "trace wz = trace (emit (CatalogFailed url e) w1) @ Goto nxt # es"
      using run_catalogs_starts by blast
    then have "trace wz = trace w1 @ CatalogFailed url e # Goto nxt # es" by (simp add: trace_emit)
    then show "\<exists>es. trace wz = trace w1 @ CatalogFailed url e # Goto nxt # es" by blast
  qed
  have 7: "\<forall>nxt e2. site env nxt = LoadFails e2 \<longrightarrow>
               run_catalogs env [url, nxt] w
                 = Some (emit (CatalogFailed nxt e2) (emit (Goto nxt) (emit (CatalogFailed url e) w1)))"
  proof (intro allI impI)
    fix nxt e2 assume "site env nxt = LoadFails e2"
    then have f: "site env (page_url nxt 1) = LoadFails e2" by (simp add: page_url_def)
    have "scrape_media_items env nxt (emit (CatalogFailed url e) w1)
            = Some (Raised e2, emit (Goto nxt) (emit (CatalogFailed url e) w1))"
      unfolding scrape_media_items_def Let_def
      using crawl_pages_fails [OF f] by (simp add: page_url_def)
    then show "run_catalogs env [url, nxt] w
                 = Some (emit (CatalogFailed nxt e2) (emit (Goto nxt) (emit (CatalogFailed url e) w1)))"
      using 1 by simp
  qed
  show ?thesis
    by (rule conjI [OF 1 conjI [OF 2 conjI [OF 3 conjI [OF 4 conjI [OF 5 conjI [OF 6 7]]]]]])
qed

theorem page_load_failure_aborts_only_catalog_witness:
  "site (demo_env twin_site 200) (page_url demo_base 2) = LoadFails ''Timeout 10000ms exceeded''
   \<and> (\<exists>wz. run_catalogs (demo_env twin_site 200)
                [demo_base, ''https://providencebiblefellowship.com/events''] empty_world = Some wz
         \<and> trace wz =
             [Goto demo_base, Visiting demo_base 2,
              Click demo_base 0, HttpGet ''https://cdn.example.com/audio/grace.mp3'',
              Downloaded ''downloads/sermons/sermons_2024-03-03_hymns_unknown-speaker_amazing-grace.mp3'',
              Click demo_base 1,
              AlreadyDownloaded ''sermons_2024-03-03_hymns_unknown-speaker_amazing-grace.mp3'',
              NextPage, Goto (demo_base @ ''?page=2''),
              CatalogFailed demo_base ''Timeout 10000ms exceeded'',
              Goto ''https://providencebiblefellowship.com/events'',
              CatalogFailed ''https://providencebiblefellowship.com/events'' ''Timeout 10000ms exceeded''])"
proof -
  let ?E = "demo_env twin_site 200"
  let ?slug = "last_segment (url_path ?E demo_base)"
  let ?folder = "path_join ''downloads'' ?slug"
  let ?w1 = "emit (Goto (page_url demo_base 2)) (pages_done ?E demo_base ?slug ?folder (2 - 1) empty_world)"
  let ?ev = "''https://providencebiblefellowship.com/events''"
  have le: "(1::nat) \<le> 2" by simp
  have ev_fails: "site ?E ?ev = LoadFails ''Timeout 10000ms exceeded''"
    by (simp add: demo_env_def twin_site_def demo_base_def)
  note t = page_load_failure_aborts_only_catalog [where w = empty_world and urls = "[?ev]",
      OF first_page_fresh [OF twin_page1] le twin_page2 refl refl refl]
  from t have "\<forall>nxt e2. site ?E nxt = LoadFails e2 \<longrightarrow>
               run_catalogs ?E [demo_base, nxt] empty_world
                 = Some (emit (CatalogFailed nxt e2) (emit (Goto nxt)
                     (emit (CatalogFailed demo_base ''Timeout 10000ms exceeded'') ?w1)))"
    by (rule conjunct2 [OF conjunct2 [OF conjunct2 [OF conjunct2 [OF conjunct2 [OF conjunct2]]]]])
  with ev_fails have 1: "run_catalogs ?E [demo_base, ?ev] empty_world
                 = Some (emit (CatalogFailed ?ev ''Timeout 10000ms exceeded'') (emit (Goto ?ev)
                     (emit (CatalogFailed demo_base ''Timeout 10000ms exceeded'') ?w1)))"
    by blast
  have 2: "trace (emit (CatalogFailed ?ev ''Timeout 10000ms exceeded'') (emit (Goto ?ev)
                     (emit (CatalogFailed demo_base ''Timeout 10000ms exceeded'') ?w1))) =
             [Goto demo_base, Visiting demo_base 2,
              Click demo_base 0, HttpGet ''https://cdn.example.com/audio/grace.mp3'',
              Downloaded ''downloads/sermons/sermons_2024-03-03_hymns_unknown-speaker_amazing-grace.mp3'',
              Click demo_base 1,
              AlreadyDownloaded ''sermons_2024-03-03_hymns_unknown-speaker_amazing-grace.mp3'',
              NextPage, Goto (demo_base @ ''?page=2''),
              CatalogFailed demo_base ''Timeout 10000ms exceeded'',
              Goto ''https://providencebiblefellowship.com/events'',
              CatalogFailed ''https://providencebiblefellowship.com/events'' ''Timeout 10000ms exceeded'']"
    by code_simp
  show ?thesis using twin_page2 [of 200] 1 2 by blast
qed

end
